theory Spec2Isabelle
  imports Main "HOL-Library.Word"
begin

unbundle bit_operations_syntax

section \<open>Bytes and fixed-width integers\<close>

type_synonym byte = "8 word"
type_synonym bytes = "byte list"

text \<open>
  Little-endian serialisation of an unsigned value in \<open>n\<close> bytes, as the typed
  \<open>writeInt<T>\<close> / \<open>readInt<T>\<close> of the byte streams do (spec, section 6: all integers
  little-endian). The stream classes themselves are declared in \<open>stream.h\<close>.
\<close>

fun le_bytes :: "nat \<Rightarrow> nat \<Rightarrow> bytes" where
  "le_bytes 0 x = []"
| "le_bytes (Suc n) x = word_of_nat (x mod 256) # le_bytes n (x div 256)"

fun le_nat :: "bytes \<Rightarrow> nat" where
  "le_nat [] = 0"
| "le_nat (b # bs) = unat b + 256 * le_nat bs"

definition writeInt32 :: "32 word \<Rightarrow> bytes" where
  "writeInt32 w = le_bytes 4 (unat w)"

definition readInt32 :: "bytes \<Rightarrow> 32 word" where
  "readInt32 bs = word_of_nat (le_nat (take 4 bs))"

definition writeInt64 :: "64 word \<Rightarrow> bytes" where
  "writeInt64 w = le_bytes 8 (unat w)"

definition readInt64 :: "bytes \<Rightarrow> 64 word" where
  "readInt64 bs = word_of_nat (le_nat (take 8 bs))"

section \<open>Object identifiers and object infos\<close>

text \<open>
  Modelled from the spec: \<open>ObjectHash\<close> (its width \<open>ObjectHash::SIZE\<close>, \<open>isEmpty\<close>, its
  ordering and \<open>writeHash\<close>) is declared in a header that is not among the sources. The
  spec gives a fixed-width 32-byte digest with a distinguished empty value and byte-wise
  equality and ordering. A hash is the 256-bit word whose big-endian bytes are the
  digest, so that the order on words is the byte-wise order; the empty hash is all zero.
\<close>

type_synonym ObjectHash = "256 word"

definition HASH_SIZE :: nat where
  "HASH_SIZE = 32"

definition isEmpty :: "ObjectHash \<Rightarrow> bool" where
  "isEmpty h \<longleftrightarrow> h = 0"

definition writeHash :: "ObjectHash \<Rightarrow> bytes" where
  "writeHash h = rev (le_bytes HASH_SIZE (unat h))"

definition readHash :: "bytes \<Rightarrow> ObjectHash" where
  "readHash bs = word_of_nat (le_nat (rev (take HASH_SIZE bs)))"

text \<open>
  Modelled from the spec: \<open>ObjectInfo\<close> (fields, \<open>SIZE\<close>, \<open>toString\<close>, \<open>fromString\<close>,
  \<open>getCompressed\<close>) and the flag \<open>ORI_FLAG_COMPRESSED\<close> are declared in headers that are
  not among the sources. The spec gives a fixed-width serialised record
  \<open>(hash, kind, flags, payload_size)\<close> whose flags include a compressed bit, and uses the
  width 48 in its scenarios: kind code (4 bytes), hash (32), flags (4), payload size (8).
  The kind is kept as the 32-bit code that is serialised.
\<close>

record ObjectInfo =
  hash :: ObjectHash
  kind :: "32 word"
  flags :: "32 word"
  payload_size :: "64 word"

definition INFO_SIZE :: nat where
  "INFO_SIZE = 48"

definition ORI_FLAG_COMPRESSED :: "32 word" where
  "ORI_FLAG_COMPRESSED = 1"

definition getCompressed :: "ObjectInfo \<Rightarrow> bool" where
  "getCompressed info \<longleftrightarrow> flags info AND ORI_FLAG_COMPRESSED \<noteq> 0"

definition toString :: "ObjectInfo \<Rightarrow> bytes" where
  "toString info =
     writeInt32 (kind info) @ writeHash (hash info) @ writeInt32 (flags info)
       @ writeInt64 (payload_size info)"

definition fromString :: "bytes \<Rightarrow> ObjectInfo" where
  "fromString s =
     \<lparr> hash = readHash (drop 4 s),
       kind = readInt32 s,
       flags = readInt32 (drop (4 + HASH_SIZE) s),
       payload_size = readInt64 (drop (8 + HASH_SIZE) s) \<rparr>"

section \<open>Index (collaborator)\<close>

record IndexEntry =
  info :: ObjectInfo
  offset :: "32 word"
  packed_size :: "32 word"
  packfile :: "32 word"

text \<open>
  Modelled from the spec: the \<open>Index\<close> class is declared in \<open>index.h\<close>; the pack code only
  calls \<open>updateEntry\<close>, an idempotent upsert, and its callers use \<open>lookup\<close>.
\<close>

type_synonym Index = "ObjectHash \<rightharpoonup> IndexEntry"

definition updateEntry :: "Index \<Rightarrow> ObjectHash \<Rightarrow> IndexEntry \<Rightarrow> Index" where
  "updateEntry idx h ie = idx(h \<mapsto> ie)"

definition lookup :: "Index \<Rightarrow> ObjectHash \<Rightarrow> IndexEntry option" where
  "lookup idx h = idx h"

section \<open>Packfile\<close>

datatype error = AssertionFailed | IoFailure | Corruption

text \<open>
  The calls a pack makes on its file descriptor and on the index, in the order in which
  it makes them.
\<close>

datatype event = EvWrite bytes | EvUpdateEntry ObjectHash IndexEntry

text \<open>
  A \<open>Packfile\<close> object: \<open>fdata\<close> is the content of the file behind \<open>fd\<close>; \<open>calls\<close> records
  the write and \<open>updateEntry\<close> calls made so far. The counters are \<open>size_t\<close> values, far
  from their 64-bit range, and are natural numbers here; offsets, stored sizes, object
  counts in headers and pack ids are the 32-bit types \<open>offset_t\<close>, \<open>uint32_t\<close>,
  \<open>numobjs_t\<close>, \<open>packid_t\<close>.
\<close>

record Packfile =
  fdata :: bytes
  packid :: "32 word"
  numObjects :: nat
  fileSize :: nat
  calls :: "event list"

record PfTransaction =
  infos :: "ObjectInfo list"
  payloads :: "bytes list"
  hashToIx :: "ObjectHash \<rightharpoonup> nat"
  totalSize :: nat
  committed :: bool

definition ENTRYSIZE :: nat where
  "ENTRYSIZE = INFO_SIZE + 4 + 4"

text \<open>The constructor, given the current content of the file it opens or creates.\<close>

definition Packfile_open :: "bytes \<Rightarrow> 32 word \<Rightarrow> Packfile" where
  "Packfile_open content pid =
     \<lparr> fdata = content, packid = pid, numObjects = 0, fileSize = length content,
       calls = [] \<rparr>"

definition begin_tx :: PfTransaction where
  "begin_tx = \<lparr> infos = [], payloads = [], hashToIx = Map.empty, totalSize = 0,
                committed = False \<rparr>"

text \<open>\<open>write(fd, ...)\<close> after \<open>lseek(fd, 0, SEEK_END)\<close>: the bytes go to the end of the file.\<close>

definition write_fd :: "bytes \<Rightarrow> Packfile \<Rightarrow> Packfile" where
  "write_fd bs pf = pf\<lparr> fdata := fdata pf @ bs, calls := calls pf @ [EvWrite bs] \<rparr>"

text \<open>
  First loop of \<open>Packfile::commit\<close>: the header entries and the vector \<open>offsets\<close>, from the
  running offset \<open>off\<close> (which wraps as a 32-bit value).
\<close>

fun commit_headers :: "ObjectInfo list \<Rightarrow> bytes list \<Rightarrow> 32 word \<Rightarrow> bytes \<times> 32 word list" where
  "commit_headers (i # is) (p # ps) off =
     (let (h, offs) = commit_headers is ps (off + word_of_nat (length p))
      in (take INFO_SIZE (toString i) @ writeInt32 (word_of_nat (length p)) @ writeInt32 off @ h,
          off # offs))"
| "commit_headers _ _ off = ([], [])"

text \<open>Second loop: each payload is written, counted, and then entered in the index.\<close>

fun commit_payloads ::
  "ObjectInfo list \<Rightarrow> bytes list \<Rightarrow> 32 word list \<Rightarrow> Packfile \<Rightarrow> Index \<Rightarrow> Packfile \<times> Index" where
  "commit_payloads (i # is) (p # ps) (off # offs) pf idx =
     (let pf1 = write_fd p pf;
          pf2 = pf1\<lparr> fileSize := fileSize pf1 + length p, numObjects := numObjects pf1 + 1 \<rparr>;
          ie = \<lparr> info = i, offset = off, packed_size = word_of_nat (length p),
                 packfile = packid pf2 \<rparr>;
          pf3 = pf2\<lparr> calls := calls pf2 @ [EvUpdateEntry (hash i) ie] \<rparr>
      in commit_payloads is ps offs pf3 (updateEntry idx (hash i) ie))"
| "commit_payloads _ _ _ pf idx = (pf, idx)"

definition commit :: "Packfile \<Rightarrow> PfTransaction \<Rightarrow> Index \<Rightarrow> error + (Packfile \<times> PfTransaction \<times> Index)" where
  "commit pf t idx =
     (if length (infos t) \<noteq> length (payloads t) then Inl AssertionFailed
      else
        let headers_size = length (infos t) * ENTRYSIZE;
            off = word_of_nat (fileSize pf + 4 + headers_size);
            (hdr, offsets) = commit_headers (infos t) (payloads t) off;
            headers_ss = writeInt32 (word_of_nat (length (infos t))) @ hdr;
            pf1 = write_fd headers_ss pf;
            pf2 = pf1\<lparr> fileSize := fileSize pf1 + length headers_ss \<rparr>;
            (pf3, idx') = commit_payloads (infos t) (payloads t) offsets pf2 idx
        in Inr (pf3, t\<lparr> committed := True \<rparr>, idx'))"

text \<open>\<open>PfTransaction::~PfTransaction\<close>: an uncommitted transaction is committed.\<close>

definition PfTransaction_destroy ::
  "Packfile \<Rightarrow> PfTransaction \<Rightarrow> Index \<Rightarrow> error + (Packfile \<times> Index)" where
  "PfTransaction_destroy pf t idx =
     (if \<not> committed t
      then (case commit pf t idx of Inl e \<Rightarrow> Inl e | Inr (pf', t', idx') \<Rightarrow> Inr (pf', idx'))
      else Inr (pf, idx))"

text \<open>
  Compression. The codec (\<open>zipstream\<close>), the tunables and the build switch
  \<open>ENABLE_COMPRESSION\<close> are not among the sources, and the admission test is a
  floating-point ratio; they are parameters: \<open>ratio_ok p\<close> is the outcome of
  \<open>ratio \<le> COMPCHECK_RATIO\<close> on the sampled prefix of \<open>p\<close>, \<open>compress p\<close> the whole
  compressed stream of \<open>p\<close> (the sampled prefix followed by the rest, as \<open>copyFrom\<close>
  appends it), and \<open>decompress n s\<close> what a decompressing stream over \<open>s\<close> with declared
  size \<open>n\<close> yields.
\<close>

record Compression =
  enabled :: bool
  ZIP_MINIMUM_SIZE :: nat
  ratio_ok :: "bytes \<Rightarrow> bool"
  compress :: "bytes \<Rightarrow> bytes"
  decompress :: "nat \<Rightarrow> bytes \<Rightarrow> bytes"

definition addPayload :: "Compression \<Rightarrow> PfTransaction \<Rightarrow> ObjectInfo \<Rightarrow> bytes \<Rightarrow> PfTransaction" where
  "addPayload cfg t info0 payload =
     (let do_compress = enabled cfg \<and> length payload > ZIP_MINIMUM_SIZE cfg \<and> ratio_ok cfg payload;
          info1 = (if do_compress then info0\<lparr> flags := flags info0 OR ORI_FLAG_COMPRESSED \<rparr>
                   else info0);
          stored = (if do_compress then compress cfg payload else payload);
          infos' = infos t @ [info1]
      in t\<lparr> payloads := payloads t @ [stored],
            totalSize := totalSize t + length stored,
            infos := infos',
            hashToIx := (hashToIx t)(hash info1 \<mapsto> length infos' - 1) \<rparr>)"

text \<open>
  \<open>Packfile::getPayload\<close>, read to its end: the bounded stream over
  \<open>(fd, entry.offset, entry.packed_size)\<close> yields the bytes of the file in that range.
\<close>

definition getPayload :: "Compression \<Rightarrow> Packfile \<Rightarrow> IndexEntry \<Rightarrow> error + bytes" where
  "getPayload cfg pf entry =
     (if packfile entry \<noteq> packid pf then Inl AssertionFailed
      else
        let stored = take (unat (packed_size entry)) (drop (unat (offset entry)) (fdata pf))
        in if \<not> enabled cfg
           then (if getCompressed (info entry) then Inl AssertionFailed else Inr stored)
           else if \<not> getCompressed (info entry) then Inr stored
           else Inr (decompress cfg (unat (payload_size (info entry))) stored))"

text \<open>
  \<open>Packfile::purge\<close>. Modelled from the spec: the reader \<open>fdstream\<close> is not among the
  sources; as the spec has it, a short read of the group count ends the scan, and a group
  whose headers or payloads run past the end of the file is reported as corruption.

  The header loop of one group, from index \<open>i\<close>: the stored sizes, the set \<open>skip\<close>, the
  infos of the transaction and the unread rest.
\<close>

fun purge_headers ::
  "nat \<Rightarrow> nat \<Rightarrow> bytes \<Rightarrow> ObjectHash set \<Rightarrow> ObjectInfo list
     \<Rightarrow> error + (32 word list \<times> nat set \<times> ObjectInfo list \<times> bytes)" where
  "purge_headers 0 i fs hset tinfos = Inr ([], {}, tinfos, fs)"
| "purge_headers (Suc n) i fs hset tinfos =
     (if length fs < INFO_SIZE + 4 + 4 then Inl Corruption
      else
        let info = fromString (take INFO_SIZE fs);
            ssize = readInt32 (drop INFO_SIZE fs);
            off = readInt32 (drop (INFO_SIZE + 4) fs);
            skipped = (hash info \<in> hset);
            tinfos' = (if skipped then tinfos else tinfos @ [info])
        in (case purge_headers n (i + 1) (drop (INFO_SIZE + 4 + 4) fs) hset tinfos' of
              Inl e \<Rightarrow> Inl e
            | Inr (sizes, skip, tinfos'', rest) \<Rightarrow>
                Inr (ssize # sizes, (if skipped then insert i skip else skip), tinfos'', rest)))"

text \<open>The payload loop of one group, over \<open>storedSizes\<close> from index \<open>i\<close>.\<close>

fun purge_payloads ::
  "32 word list \<Rightarrow> nat \<Rightarrow> nat set \<Rightarrow> bytes \<Rightarrow> bytes list \<Rightarrow> error + (bytes list \<times> bytes)" where
  "purge_payloads [] i skip fs tpayloads = Inr (tpayloads, fs)"
| "purge_payloads (sz # sizes) i skip fs tpayloads =
     (if length fs < unat sz then Inl Corruption
      else
        let payload = take (unat sz) fs;
            tpayloads' = (if i \<in> skip then tpayloads else tpayloads @ [payload])
        in purge_payloads sizes (i + 1) skip (drop (unat sz) fs) tpayloads')"

lemma length_purge_headers:
  "purge_headers n i fs hset tinfos = Inr (sizes, skip, tinfos', rest) \<Longrightarrow> length rest \<le> length fs"
proof (induction n arbitrary: i fs tinfos sizes skip)
  case 0
  then show ?case by simp
next
  case (Suc n)
  from Suc.prems obtain tin sizes0 skip0 where
    "purge_headers n (i + 1) (drop (INFO_SIZE + 4 + 4) fs) hset tin = Inr (sizes0, skip0, tinfos', rest)"
    by (auto simp: Let_def split: if_splits sum.splits)
  then have "length rest \<le> length (drop (INFO_SIZE + 4 + 4) fs)"
    by (rule Suc.IH)
  then show ?case by simp
qed

lemma length_purge_payloads:
  "purge_payloads sizes i skip fs tps = Inr (tps', rest) \<Longrightarrow> length rest \<le> length fs"
proof (induction sizes arbitrary: i fs tps)
  case Nil
  then show ?case by simp
next
  case (Cons sz sizes)
  from Cons.prems obtain tp where
    "purge_payloads sizes (i + 1) skip (drop (unat sz) fs) tp = Inr (tps', rest)"
    by (auto simp: Let_def split: if_splits)
  then have "length rest \<le> length (drop (unat sz) fs)"
    by (rule Cons.IH)
  then show ?case by simp
qed

text \<open>The \<open>while (!fs.ended())\<close> loop over the groups of the file.\<close>

function purge_scan :: "bytes \<Rightarrow> ObjectHash set \<Rightarrow> PfTransaction \<Rightarrow> error + PfTransaction" where
  "purge_scan fs hset tr =
     (if fs = [] then Inr tr
      else if length fs < 4 then Inr tr
      else
        (case purge_headers (unat (readInt32 fs)) 0 (drop 4 fs) hset (infos tr) of
           Inl e \<Rightarrow> Inl e
         | Inr (sizes, skip, tinfos, rest) \<Rightarrow>
             (case purge_payloads sizes 0 skip rest (payloads tr) of
                Inl e \<Rightarrow> Inl e
              | Inr (tpayloads, rest') \<Rightarrow>
                  purge_scan rest' hset (tr\<lparr> infos := tinfos, payloads := tpayloads \<rparr>))))"
  by pat_completeness auto
termination
proof (relation "measure (\<lambda>(fs, hset, tr). length fs)", goal_cases)
  case 1
  show ?case by simp
next
  case (2 fs hset tr x2 sizes y skip ya tinfos rest x2a tpayloads rest')
  have "length rest \<le> length (drop 4 fs)"
    using 2 length_purge_headers by metis
  moreover have "length rest' \<le> length rest"
    using 2 length_purge_payloads by metis
  ultimately show ?case
    using 2 by simp
qed

declare purge_scan.simps [simp del]

text \<open>
  \<open>tmp\<close> is the content of the file \<open>filename.tmp\<close> as \<open>open\<close> with \<open>O_CREAT\<close> finds or
  creates it; it takes the place of the pack's file. The fields \<open>fileSize\<close> and
  \<open>numObjects\<close> are not assigned. \<open>tr.reset()\<close> destroys the transaction.
\<close>

definition purge ::
  "Packfile \<Rightarrow> ObjectHash set \<Rightarrow> bytes \<Rightarrow> Index \<Rightarrow> error + (bool \<times> Packfile \<times> Index)" where
  "purge pf hset tmp idx =
     (case purge_scan (fdata pf) hset begin_tx of
        Inl e \<Rightarrow> Inl e
      | Inr tr \<Rightarrow>
          let pf1 = pf\<lparr> fdata := tmp \<rparr>;
              empty = (length (payloads tr) = 0)
          in (case PfTransaction_destroy pf1 tr idx of
                Inl e \<Rightarrow> Inl e
              | Inr (pf', idx') \<Rightarrow> Inr (empty, pf', idx')))"

text \<open>
  \<open>Packfile::receive\<close>. Modelled from the spec: the reader \<open>bytestream\<close> is not among the
  sources; \<open>readInt\<close> and \<open>readExact\<close> fail when the stream holds fewer bytes than asked
  for, and the failure surfaces to the caller.

  The header loop: each object is entered in the index as its header is read.
\<close>

fun receive_headers ::
  "nat \<Rightarrow> bytes \<Rightarrow> 32 word \<Rightarrow> Packfile \<Rightarrow> Index
     \<Rightarrow> error + (bytes \<times> 32 word list \<times> Packfile \<times> Index \<times> bytes)" where
  "receive_headers 0 bs off pf idx = Inr ([], [], pf, idx, bs)"
| "receive_headers (Suc n) bs off pf idx =
     (if length bs < INFO_SIZE + 4 then Inl IoFailure
      else
        let info_str = take INFO_SIZE bs;
            info = fromString info_str;
            obj_size = readInt32 (drop INFO_SIZE bs);
            ie = \<lparr> info = info, offset = off, packed_size = obj_size, packfile = packid pf \<rparr>;
            pf1 = pf\<lparr> calls := calls pf @ [EvUpdateEntry (hash info) ie] \<rparr>
        in (case receive_headers n (drop (INFO_SIZE + 4) bs) (off + obj_size) pf1
                   (updateEntry idx (hash info) ie) of
              Inl e \<Rightarrow> Inl e
            | Inr (hdr, obj_sizes, pf', idx', rest) \<Rightarrow>
                Inr (info_str @ writeInt32 obj_size @ writeInt32 off @ hdr,
                     obj_size # obj_sizes, pf', idx', rest)))"

text \<open>The payload loop.\<close>

fun receive_payloads :: "32 word list \<Rightarrow> bytes \<Rightarrow> Packfile \<Rightarrow> error + (Packfile \<times> bytes)" where
  "receive_payloads [] bs pf = Inr (pf, bs)"
| "receive_payloads (sz # obj_sizes) bs pf =
     (if length bs < unat sz then Inl IoFailure
      else
        let data = take (unat sz) bs;
            pf1 = write_fd data pf;
            pf2 = pf1\<lparr> fileSize := fileSize pf1 + unat sz, numObjects := numObjects pf1 + 1 \<rparr>
        in receive_payloads obj_sizes (drop (unat sz) bs) pf2)"

definition receive :: "Packfile \<Rightarrow> bytes \<Rightarrow> Index \<Rightarrow> error + (bool \<times> Packfile \<times> Index \<times> bytes)" where
  "receive pf bs idx =
     (if length bs < 4 then Inl IoFailure
      else
        let num = readInt32 bs
        in if num = 0 then Inr (False, pf, idx, drop 4 bs)
           else
             let headers_size = unat num * ENTRYSIZE;
                 off = word_of_nat (fileSize pf + 4 + headers_size)
             in (case receive_headers (unat num) (drop 4 bs) off pf idx of
                   Inl e \<Rightarrow> Inl e
                 | Inr (hdr, obj_sizes, pf1, idx', rest) \<Rightarrow>
                     let headers_ss = writeInt32 num @ hdr;
                         pf2 = write_fd headers_ss pf1;
                         pf3 = pf2\<lparr> fileSize := fileSize pf2 + length headers_ss \<rparr>
                     in (case receive_payloads obj_sizes rest pf3 of
                           Inl e \<Rightarrow> Inl e
                         | Inr (pf4, rest') \<Rightarrow> Inr (True, pf4, idx', rest'))))"

text \<open>
  An instance of the compression parameters, on which the model can be run: run-length
  coding as the codec, and an admission test that compares the coded size of the payload
  with two thirds of its size.
\<close>

fun rle_encode :: "bytes \<Rightarrow> bytes" where
  "rle_encode [] = []"
| "rle_encode (b # bs) =
     (case rle_encode bs of
        c # b' # rest \<Rightarrow>
          if b' = b \<and> c < 255 then (c + 1) # b # rest else 1 # b # c # b' # rest
      | _ \<Rightarrow> [1, b])"

fun rle_decode :: "bytes \<Rightarrow> bytes" where
  "rle_decode (c # b # rest) = replicate (unat c) b @ rle_decode rest"
| "rle_decode _ = []"

definition rle_cfg :: Compression where
  "rle_cfg = \<lparr> enabled = True, ZIP_MINIMUM_SIZE = 8,
               ratio_ok = (\<lambda>p. 3 * length (rle_encode p) \<le> 2 * length p),
               compress = rle_encode,
               decompress = (\<lambda>n s. rle_decode s) \<rparr>"

section \<open>Packfile manager: the free list\<close>

text \<open>
  \<open>_freeListCB\<close>: the base name of the path is matched against \<open>pack%u.pak\<close>. \<open>sscanf\<close>
  matches the literal \<open>pack\<close>; \<open>%u\<close> then skips white space, accepts one sign and reads
  the decimal digits that follow (a minus sign negates the value as an unsigned number),
  and \<open>sscanf\<close> reports one conversion as soon as these digits are read, whatever comes
  after them. Values beyond the range of \<open>unsigned\<close> are taken modulo \<open>2^32\<close>.
\<close>

definition StrUtil_Basename :: "string \<Rightarrow> string" where
  "StrUtil_Basename path = rev (takeWhile (\<lambda>c. c \<noteq> CHR ''/'') (rev path))"

definition is_digit :: "char \<Rightarrow> bool" where
  "is_digit c \<longleftrightarrow> 48 \<le> (of_char c :: nat) \<and> (of_char c :: nat) \<le> 57"

definition is_space :: "char \<Rightarrow> bool" where
  "is_space c \<longleftrightarrow> (of_char c :: nat) = 32 \<or> (9 \<le> (of_char c :: nat) \<and> (of_char c :: nat) \<le> 13)"

definition digits_value :: "string \<Rightarrow> nat" where
  "digits_value ds = foldl (\<lambda>acc c. 10 * acc + ((of_char c :: nat) - 48)) 0 ds"

text \<open>The conversion \<open>%u\<close> on the rest of the input.\<close>

definition scan_unsigned :: "string \<Rightarrow> 32 word option" where
  "scan_unsigned s =
     (let s1 = dropWhile is_space s;
          negative = (take 1 s1 = ''-'');
          s2 = (if take 1 s1 = ''-'' \<or> take 1 s1 = ''+'' then drop 1 s1 else s1);
          ds = takeWhile is_digit s2
      in if ds = [] then None
         else if negative then Some (- word_of_nat (digits_value ds))
         else Some (word_of_nat (digits_value ds)))"

definition scan_pack_id :: "string \<Rightarrow> 32 word option" where
  "scan_pack_id name =
     (if take 4 name = ''pack'' then scan_unsigned (drop 4 name) else None)"

fun freeListCB :: "32 word list \<Rightarrow> string \<Rightarrow> 32 word list" where
  "freeListCB existing cpath =
     (case scan_pack_id (StrUtil_Basename cpath) of
        None \<Rightarrow> existing
      | Some pid \<Rightarrow> existing @ [pid])"

text \<open>\<open>Scan_Traverse\<close> calls the callback on every path of the directory.\<close>

definition Scan_Traverse :: "string list \<Rightarrow> 32 word list" where
  "Scan_Traverse paths = foldl freeListCB [] paths"

datatype range_error = OutOfRange

text \<open>The inner loop of \<open>_recomputeFreeList\<close>: \<open>while (cur < existing[ix])\<close>.\<close>

lemma unat_succ_below: "(cur :: 32 word) < lim \<Longrightarrow> unat (cur + 1) = unat cur + 1"
proof -
  assume "cur < lim"
  then have "unat cur < unat lim"
    by (simp add: word_less_nat_alt)
  moreover have "unat lim < 2 ^ 32"
    using unsigned_less [of lim, where ?'a = nat] by simp
  ultimately have "unat cur + 1 < 2 ^ 32"
    by simp
  then show ?thesis
    by (simp add: unat_word_ariths)
qed

function fill_gap :: "32 word \<Rightarrow> 32 word \<Rightarrow> 32 word list \<Rightarrow> 32 word \<times> 32 word list" where
  "fill_gap cur lim fl =
     (if cur < lim then fill_gap (cur + 1) lim (fl @ [cur]) else (cur, fl))"
  by pat_completeness auto
termination
proof (relation "measure (\<lambda>(cur, lim, fl). unat lim - unat cur)")
  show "wf (measure (\<lambda>(cur, lim, fl). unat lim - unat cur))"
    by simp
next
  fix cur lim :: "32 word" and fl :: "32 word list"
  assume lt: "cur < lim"
  have "unat (cur + 1) = unat cur + 1"
    using lt by (rule unat_succ_below)
  moreover have "unat cur < unat lim"
    using lt by (simp add: word_less_nat_alt)
  ultimately show "((cur + 1, lim, fl @ [cur]), (cur, lim, fl))
      \<in> measure (\<lambda>(cur, lim, fl). unat lim - unat cur)"
    by simp
qed

declare fill_gap.simps [simp del]

text \<open>
  The outer loop: \<open>while (cur < existing.back())\<close>. Reading \<open>existing[ix]\<close> past the end
  of the vector is the branch \<open>Inl OutOfRange\<close>.
\<close>

function recompute_loop ::
  "32 word list \<Rightarrow> 32 word \<Rightarrow> nat \<Rightarrow> 32 word list \<Rightarrow> range_error + 32 word list" where
  "recompute_loop existing cur ix fl =
     (if cur < last existing
      then (if ix < length existing
            then (case fill_gap cur (existing ! ix) fl of
                    (cur', fl') \<Rightarrow> recompute_loop existing (cur' + 1) (ix + 1) fl')
            else Inl OutOfRange)
      else Inr fl)"
  by pat_completeness auto
termination
  by (relation "measure (\<lambda>(existing, cur, ix, fl). length existing - ix)") auto

declare recompute_loop.simps [simp del]

definition recomputeFreeList :: "string list \<Rightarrow> range_error + 32 word list" where
  "recomputeFreeList paths =
     (let existing = sort (Scan_Traverse paths)
      in if length existing > 0
         then (case recompute_loop existing 0 0 [] of
                 Inl e \<Rightarrow> Inl e
               | Inr fl \<Rightarrow> Inr (fl @ [last existing + 1]))
         else Inr [0])"

text \<open>
  \<open>PackfileManager::newPackfile\<close>: the id of the pack it opens and the free list it
  leaves; the \<open>ASSERT\<close> on an empty list is the error branch.
\<close>

definition newPackfile :: "32 word list \<Rightarrow> error + (32 word \<times> 32 word list)" where
  "newPackfile freeList =
     (case freeList of
        [] \<Rightarrow> Inl AssertionFailed
      | pid # rest \<Rightarrow>
          if length freeList = 1 then Inr (pid, [pid + 1]) else Inr (pid, rest))"

text \<open>\<open>n\<close> successive calls: the ids returned, in order, and the final free list.\<close>

fun newPackfiles :: "nat \<Rightarrow> 32 word list \<Rightarrow> error + (32 word list \<times> 32 word list)" where
  "newPackfiles 0 freeList = Inr ([], freeList)"
| "newPackfiles (Suc n) freeList =
     (case newPackfile freeList of
        Inl e \<Rightarrow> Inl e
      | Inr (pid, fl) \<Rightarrow>
          (case newPackfiles n fl of
             Inl e \<Rightarrow> Inl e
           | Inr (ids, fl') \<Rightarrow> Inr (pid # ids, fl')))"

text \<open>
  The constructor of \<open>PackfileManager\<close>: \<open>loaded\<close> is the list \<open>_loadFreeList\<close> has read,
  or \<open>None\<close> when it returns false; then the list is recomputed from the directory.
\<close>

definition PackfileManager_init ::
  "32 word list option \<Rightarrow> string list \<Rightarrow> range_error + 32 word list" where
  "PackfileManager_init loaded paths =
     (case loaded of Some fl \<Rightarrow> Inr fl | None \<Rightarrow> recomputeFreeList paths)"

section \<open>Metadata log\<close>

type_synonym refcount_t = "32 word"

text \<open>
  \<open>RefcountMap\<close> is a \<open>std::map\<close> from hashes to counts: an association list kept in
  increasing key order, which is the order in which the map is iterated.
\<close>

type_synonym RefcountMap = "(ObjectHash \<times> refcount_t) list"

text \<open>\<open>m[h] = v\<close>\<close>

fun rc_assign :: "ObjectHash \<Rightarrow> refcount_t \<Rightarrow> RefcountMap \<Rightarrow> RefcountMap" where
  "rc_assign h v [] = [(h, v)]"
| "rc_assign h v ((k, w) # m) =
     (if h = k then (k, v) # m
      else if h < k then (h, v) # (k, w) # m
      else (k, w) # rc_assign h v m)"

text \<open>\<open>m[h]\<close> read as a value: a missing key is created with the count 0.\<close>

definition rc_get :: "RefcountMap \<Rightarrow> ObjectHash \<Rightarrow> refcount_t" where
  "rc_get m h = (case map_of m h of None \<Rightarrow> 0 | Some v \<Rightarrow> v)"

text \<open>
  A \<open>MetadataLog\<close> object: \<open>lfile\<close> is the content of the file behind \<open>fd\<close>, which is
  opened with \<open>O_APPEND\<close>, so every write goes to its end. The system calls are taken to
  succeed and to transfer the whole buffer; the code does not check them.
\<close>

record MetadataLog =
  lfile :: bytes
  refcounts :: RefcountMap

record MdTransaction =
  counts :: RefcountMap

definition MdTransaction_begin :: MdTransaction where
  "MdTransaction_begin = \<lparr> counts = [] \<rparr>"

text \<open>
  The entry loop of \<open>MetadataLog::open\<close>. After the size check at least
  \<open>num * (SIZE + 4)\<close> bytes remain, so the reads are never short.
\<close>

fun read_entries :: "nat \<Rightarrow> bytes \<Rightarrow> RefcountMap \<Rightarrow> RefcountMap \<times> bytes" where
  "read_entries 0 bs m = (m, bs)"
| "read_entries (Suc n) bs m =
     (let h = readHash bs;
          refcount = readInt32 (drop HASH_SIZE bs)
      in read_entries n (drop (HASH_SIZE + 4) bs) (rc_assign h refcount m))"

lemma length_read_entries: "length (snd (read_entries n bs m)) \<le> length bs"
proof (induction n arbitrary: bs m)
  case 0
  show ?case by simp
next
  case (Suc n)
  have "length (snd (read_entries n (drop (HASH_SIZE + 4) bs) (rc_assign (readHash bs) (readInt32 (drop HASH_SIZE bs)) m)))
      \<le> length (drop (HASH_SIZE + 4) bs)"
    by (rule Suc.IH)
  then show ?case by (simp add: Let_def)
qed

text \<open>
  The \<open>while (true)\<close> loop of \<open>MetadataLog::open\<close> on the unread rest \<open>bs\<close> of the file.
  \<open>n\<close> is what \<open>read\<close> returns; the local \<open>num\<close> is not initialised, so after a read of
  fewer than four bytes its remaining bytes are those of the indeterminate value \<open>junk\<close>.
  \<open>n\<close> is a \<open>size_t\<close>, so the test \<open>n < 0\<close> never holds. The result is the value returned
  and the map as the call leaves it.
\<close>

function open_loop :: "32 word \<Rightarrow> nat \<Rightarrow> nat \<Rightarrow> bytes \<Rightarrow> RefcountMap \<Rightarrow> bool \<times> RefcountMap" where
  "open_loop junk st_size readSoFar bs m =
     (let n = length (take 4 bs);
          num = readInt32 (take 4 bs @ drop n (writeInt32 junk));
          readSoFar1 = readSoFar + 4
      in if n = 0 then (True, m)
         else if unat num * (HASH_SIZE + 4) + readSoFar1 > st_size then (False, m)
         else (case read_entries (unat num) (drop 4 bs) m of
                 (m', bs') \<Rightarrow>
                   open_loop junk st_size (readSoFar1 + unat num * (HASH_SIZE + 4)) bs' m'))"
  by pat_completeness auto
termination
proof (relation "measure (\<lambda>(junk, st_size, readSoFar, bs, m). length bs)", goal_cases)
  case 1
  show ?case by simp
next
  case (2 junk st_size readSoFar bs m n num readSoFar1 m' bs')
  have "length (snd (read_entries (unat num) (drop 4 bs) m)) \<le> length (drop 4 bs)"
    by (rule length_read_entries)
  then have "length bs' \<le> length bs - 4"
    using 2 by (metis length_drop snd_conv)
  moreover have "bs \<noteq> []"
    using 2 by auto
  ultimately show ?case
    by (cases bs) auto
qed

declare open_loop.simps [simp del]

text \<open>
  \<open>MetadataLog::open\<close> on a file with the given content, from the empty map the
  constructor leaves.
\<close>

definition MetadataLog_open :: "32 word \<Rightarrow> bytes \<Rightarrow> bool \<times> MetadataLog" where
  "MetadataLog_open junk content =
     (case open_loop junk (length content) 0 content [] of
        (ok, m) \<Rightarrow> (ok, \<lparr> lfile = content, refcounts = m \<rparr>))"

text \<open>
  The loop of \<open>MetadataLog::commit\<close> over the deltas of the transaction; the \<open>assert\<close> on
  an empty hash stops the process.
\<close>

fun commit_entries :: "RefcountMap \<Rightarrow> RefcountMap \<Rightarrow> bytes \<Rightarrow> error + (RefcountMap \<times> bytes)" where
  "commit_entries [] rc ws = Inr (rc, ws)"
| "commit_entries ((h, delta) # cs) rc ws =
     (if isEmpty h then Inl AssertionFailed
      else
        let final_count = rc_get rc h + delta
        in commit_entries cs (rc_assign h final_count rc)
             (ws @ writeHash h @ writeInt32 final_count))"

definition MetadataLog_commit ::
  "MetadataLog \<Rightarrow> MdTransaction \<Rightarrow> error + (MetadataLog \<times> MdTransaction)" where
  "MetadataLog_commit log tr =
     (let num = (word_of_nat (length (counts tr)) :: 32 word)
      in if num = 0 then Inr (log, tr)
         else
           let log1 = log\<lparr> lfile := lfile log @ writeInt32 num \<rparr>
           in (case commit_entries (counts tr) (refcounts log1) [] of
                 Inl e \<Rightarrow> Inl e
               | Inr (rc, ws) \<Rightarrow>
                   Inr (log1\<lparr> refcounts := rc, lfile := lfile log1 @ ws \<rparr>,
                        tr\<lparr> counts := [] \<rparr>)))"

text \<open>\<open>MdTransaction::~MdTransaction\<close>, for a transaction bound to a log.\<close>

definition MdTransaction_destroy :: "MetadataLog \<Rightarrow> MdTransaction \<Rightarrow> error + MetadataLog" where
  "MdTransaction_destroy log tr =
     (case MetadataLog_commit log tr of Inl e \<Rightarrow> Inl e | Inr (log', tr') \<Rightarrow> Inr log')"


text \<open>
  \<open>MetadataLog::addRef\<close>. With no transaction supplied the one made by \<open>begin()\<close> is owned
  by the parameter \<open>trs\<close> alone and is destroyed when the call ends; a supplied
  transaction is still owned by the caller and is returned updated.
\<close>

definition addRef ::
  "MetadataLog \<Rightarrow> ObjectHash \<Rightarrow> MdTransaction option \<Rightarrow> error + (MetadataLog \<times> MdTransaction option)" where
  "addRef log h trs =
     (case trs of
        None \<Rightarrow>
          (let tr = MdTransaction_begin;
               tr1 = tr\<lparr> counts := rc_assign h (rc_get (counts tr) h + 1) (counts tr) \<rparr>
           in (case MdTransaction_destroy log tr1 of
                 Inl e \<Rightarrow> Inl e
               | Inr log' \<Rightarrow> Inr (log', None)))
      | Some tr \<Rightarrow>
          Inr (log, Some (tr\<lparr> counts := rc_assign h (rc_get (counts tr) h + 1) (counts tr) \<rparr>)))"

definition getRefCount :: "MetadataLog \<Rightarrow> ObjectHash \<Rightarrow> refcount_t" where
  "getRefCount log h =
     (case map_of (refcounts log) h of None \<Rightarrow> 0 | Some v \<Rightarrow> v)"

section \<open>Scenarios and auxiliary descriptions\<close>

text \<open>
  The pipeline of the pack round trip: the payload is staged in the transaction \<open>t0\<close>,
  the transaction is committed, the index is asked for the hash, and the payload is read
  back through the entry found.
\<close>

definition roundtrip ::
  "Compression \<Rightarrow> Packfile \<Rightarrow> PfTransaction \<Rightarrow> Index \<Rightarrow> ObjectInfo \<Rightarrow> bytes \<Rightarrow> error + bytes" where
  "roundtrip cfg pf t0 idx info0 p =
     (case commit pf (addPayload cfg t0 info0 p) idx of
        Inl e \<Rightarrow> Inl e
      | Inr (pf', t', idx') \<Rightarrow>
          (case lookup idx' (hash info0) of
             None \<Rightarrow> Inl IoFailure
           | Some ie \<Rightarrow> getPayload cfg pf' ie))"

text \<open>
  The calls made by one \<open>Packfile::commit\<close> and by one \<open>Packfile::receive\<close>, and the
  ordering that asks every index update of a group to come after all the writes of the
  group: the calls are writes followed by index updates only.
\<close>

definition commit_calls :: "Packfile \<Rightarrow> PfTransaction \<Rightarrow> Index \<Rightarrow> event list" where
  "commit_calls pf t idx =
     (case commit pf t idx of
        Inl e \<Rightarrow> []
      | Inr (pf', t', idx') \<Rightarrow> drop (length (calls pf)) (calls pf'))"

definition receive_calls :: "Packfile \<Rightarrow> bytes \<Rightarrow> Index \<Rightarrow> event list" where
  "receive_calls pf bs idx =
     (case receive pf bs idx of
        Inl e \<Rightarrow> []
      | Inr (ok, pf', idx', rest) \<Rightarrow> drop (length (calls pf)) (calls pf'))"

fun is_write :: "event \<Rightarrow> bool" where
  "is_write (EvWrite bs) = True"
| "is_write (EvUpdateEntry h ie) = False"

definition updates_after_all_writes :: "event list \<Rightarrow> bool" where
  "updates_after_all_writes evs \<longleftrightarrow> \<not> list_ex is_write (dropWhile is_write evs)"

text \<open>A transaction of two one-byte objects, and the stream of one transmitted object.\<close>

definition two_objects :: PfTransaction where
  "two_objects =
     addPayload (rle_cfg\<lparr> enabled := False \<rparr>)
       (addPayload (rle_cfg\<lparr> enabled := False \<rparr>) begin_tx
          \<lparr> hash = 1, kind = 3, flags = 0, payload_size = 1 \<rparr> [17])
       \<lparr> hash = 2, kind = 3, flags = 0, payload_size = 1 \<rparr> [18]"

definition one_object_stream :: bytes where
  "one_object_stream =
     writeInt32 1 @ toString \<lparr> hash = 1, kind = 3, flags = 0, payload_size = 1 \<rparr>
       @ writeInt32 1 @ [17]"

text \<open>The hash of an \<open>updateEntry\<close> call.\<close>

fun update_of :: "event \<Rightarrow> ObjectHash option" where
  "update_of (EvWrite bs) = None"
| "update_of (EvUpdateEntry h ie) = Some h"

text \<open>The pack and the index after a transaction is committed to the empty pack 0.\<close>

definition committed_pack :: "PfTransaction \<Rightarrow> Packfile \<times> Index" where
  "committed_pack t =
     (case commit (Packfile_open [] 0) t Map.empty of
        Inl e \<Rightarrow> (Packfile_open [] 0, Map.empty)
      | Inr (pf, t', idx) \<Rightarrow> (pf, idx))"

text \<open>What the index answers for a hash after a purge.\<close>

definition purge_lookup ::
  "Packfile \<Rightarrow> ObjectHash set \<Rightarrow> bytes \<Rightarrow> Index \<Rightarrow> ObjectHash \<Rightarrow> error + IndexEntry option" where
  "purge_lookup pf hset tmp idx h =
     (case purge pf hset tmp idx of
        Inl e \<Rightarrow> Inl e
      | Inr (emp, pf', idx') \<Rightarrow> Inr (lookup idx' h))"

text \<open>
  The format of the metadata log, from the spec: an entry is \<open>u32 num\<close> followed by \<open>num\<close>
  pairs of a hash and a \<open>u32\<close> count; a log file is a sequence of entries.
\<close>

fun pairs_bytes :: "(ObjectHash \<times> refcount_t) list \<Rightarrow> bytes" where
  "pairs_bytes [] = []"
| "pairs_bytes ((h, c) # e) = writeHash h @ writeInt32 c @ pairs_bytes e"

definition entry_bytes :: "(ObjectHash \<times> refcount_t) list \<Rightarrow> bytes" where
  "entry_bytes e = writeInt32 (word_of_nat (length e)) @ pairs_bytes e"

definition log_bytes :: "(ObjectHash \<times> refcount_t) list list \<Rightarrow> bytes" where
  "log_bytes es = concat (map entry_bytes es)"

text \<open>The count written for \<open>h\<close> in the last entry that contains \<open>h\<close>.\<close>

definition last_written ::
  "(ObjectHash \<times> refcount_t) list list \<Rightarrow> ObjectHash \<Rightarrow> refcount_t option" where
  "last_written es h =
     (case filter (\<lambda>(k, c). k = h) (concat es) of
        [] \<Rightarrow> None
      | x # xs \<Rightarrow> Some (snd (last (x # xs))))"

text \<open>Assigning the pairs of an entry to the map, in order, as the entry loop of \<open>open\<close> does.\<close>

fun assign_all :: "RefcountMap \<Rightarrow> (ObjectHash \<times> refcount_t) list \<Rightarrow> RefcountMap" where
  "assign_all m [] = m"
| "assign_all m ((h, c) # e) = assign_all (rc_assign h c m) e"

text \<open>The pairs that \<open>MetadataLog::commit\<close> writes for the deltas \<open>cs\<close>, from the map \<open>rc\<close>.\<close>

fun finals :: "RefcountMap \<Rightarrow> RefcountMap \<Rightarrow> (ObjectHash \<times> refcount_t) list" where
  "finals rc [] = []"
| "finals rc ((h, d) # cs) =
     (h, rc_get rc h + d) # finals (rc_assign h (rc_get rc h + d) rc) cs"

text \<open>A log whose map is the one that \<open>open\<close> rebuilds from its file.\<close>

definition consistent :: "MetadataLog \<Rightarrow> bool" where
  "consistent log \<longleftrightarrow>
     (\<forall>junk. open_loop junk (length (lfile log)) 0 (lfile log) [] = (True, refcounts log))"

text \<open>Committing a sequence of transactions, one after the other.\<close>

fun commit_all :: "MetadataLog \<Rightarrow> MdTransaction list \<Rightarrow> error + MetadataLog" where
  "commit_all log [] = Inr log"
| "commit_all log (tr # trs) =
     (case MdTransaction_destroy log tr of
        Inl e \<Rightarrow> Inl e
      | Inr log' \<Rightarrow> commit_all log' trs)"

text \<open>
  The corruption condition in the words of the spec, on positions of the file: the entry
  that starts at position \<open>p\<close> declares the count \<open>num\<close>; with \<open>readSoFar = p + 4\<close>, the
  bytes consumed including the count field, the entry overruns the file when
  \<open>num * (HASH_SIZE + 4) + readSoFar > file_size\<close>. \<open>some_entry_overruns\<close> holds when
  this is so for the entry at \<open>p\<close> or for one of the entries that follow it.
\<close>

definition declared_num :: "32 word \<Rightarrow> bytes \<Rightarrow> nat \<Rightarrow> nat" where
  "declared_num junk content p =
     unat (readInt32 (take 4 (drop p content)
                       @ drop (length (take 4 (drop p content))) (writeInt32 junk)))"

function some_entry_overruns :: "32 word \<Rightarrow> bytes \<Rightarrow> nat \<Rightarrow> bool" where
  "some_entry_overruns junk content p =
     (if p \<ge> length content then False
      else if declared_num junk content p * (HASH_SIZE + 4) + (p + 4) > length content then True
      else some_entry_overruns junk content (p + 4 + declared_num junk content p * (HASH_SIZE + 4)))"
  by pat_completeness auto
termination
  by (relation "measure (\<lambda>(junk, content, p). length content - p)") auto

declare some_entry_overruns.simps [simp del]

text \<open>The offsets that a commit starting at \<open>off\<close> assigns to a list of payloads.\<close>

fun offsets_from :: "32 word \<Rightarrow> bytes list \<Rightarrow> 32 word list" where
  "offsets_from off [] = []"
| "offsets_from off (p # ps) = off # offsets_from (off + word_of_nat (length p)) ps"

text \<open>The header block that \<open>Packfile::commit\<close> writes for a transaction.\<close>

definition header_block :: "Packfile \<Rightarrow> PfTransaction \<Rightarrow> bytes" where
  "header_block pf t =
     writeInt32 (word_of_nat (length (infos t)))
       @ fst (commit_headers (infos t) (payloads t)
               (word_of_nat (fileSize pf + 4 + length (infos t) * ENTRYSIZE)))"

section \<open>Serialisation lemmas\<close>

lemma length_le_bytes [simp]: "length (le_bytes n x) = n"
  by (induction n arbitrary: x) simp_all

lemma le_nat_le_bytes: "le_nat (le_bytes n x) = x mod 256 ^ n"
proof (induction n arbitrary: x)
  case 0
  show ?case by simp
next
  case (Suc n)
  have "unat (word_of_nat (x mod 256) :: byte) = x mod 256"
    by (simp add: unat_of_nat)
  then show ?case
    using Suc by (simp add: mod_mult2_eq)
qed

lemma length_writeInt32 [simp]: "length (writeInt32 w) = 4"
  by (simp add: writeInt32_def)

lemma length_writeInt64 [simp]: "length (writeInt64 w) = 8"
  by (simp add: writeInt64_def)

lemma length_writeHash [simp]: "length (writeHash h) = 32"
  by (simp add: writeHash_def HASH_SIZE_def)

lemma length_toString [simp]: "length (toString i) = 48"
  by (simp add: toString_def)

section \<open>Lemmas about the pack commit\<close>

lemma length_offsets_from [simp]: "length (offsets_from off ps) = length ps"
  by (induction ps arbitrary: off) simp_all

lemma offsets_from_snoc:
  "offsets_from off (ps @ [p]) = offsets_from off ps @ [off + word_of_nat (length (concat ps))]"
  by (induction ps arbitrary: off) (simp_all add: add.assoc)

lemma commit_headers_offsets:
  "length is = length ps \<Longrightarrow> snd (commit_headers is ps off) = offsets_from off ps"
  by (induction "is" ps arbitrary: off rule: list_induct2) (simp_all add: split_beta)

lemma commit_headers_length:
  "length is = length ps \<Longrightarrow> length (fst (commit_headers is ps off)) = length is * ENTRYSIZE"
  by (induction "is" ps arbitrary: off rule: list_induct2)
     (simp_all add: split_beta ENTRYSIZE_def INFO_SIZE_def)

lemma commit_payloads_file:
  "length is = length ps \<Longrightarrow> length ps = length offs \<Longrightarrow>
   fdata (fst (commit_payloads is ps offs pf idx)) = fdata pf @ concat ps
   \<and> fileSize (fst (commit_payloads is ps offs pf idx)) = fileSize pf + length (concat ps)
   \<and> numObjects (fst (commit_payloads is ps offs pf idx)) = numObjects pf + length ps
   \<and> packid (fst (commit_payloads is ps offs pf idx)) = packid pf"
  by (induction "is" ps offs arbitrary: pf idx rule: list_induct3)
     (simp_all add: Let_def write_fd_def)

lemma commit_payloads_index_last:
  "length is = length ps \<Longrightarrow> length ps = length offs \<Longrightarrow>
   snd (commit_payloads (is @ [i]) (ps @ [p]) (offs @ [off]) pf idx) (hash i)
     = Some \<lparr> info = i, offset = off, packed_size = word_of_nat (length p), packfile = packid pf \<rparr>"
  by (induction "is" ps offs arbitrary: pf idx rule: list_induct3)
     (simp_all add: Let_def write_fd_def updateEntry_def)

lemma commit_payloads_index_other:
  "h \<notin> hash ` set is \<Longrightarrow> snd (commit_payloads is ps offs pf idx) h = idx h"
  by (induction "is" ps offs pf idx rule: commit_payloads.induct)
     (simp_all add: Let_def updateEntry_def)


lemma commit_payloads_calls:
  "length is = length ps \<Longrightarrow> length ps = length offs \<Longrightarrow>
   calls (fst (commit_payloads is ps offs pf idx)) =
     calls pf @ concat (map (\<lambda>k. [EvWrite (ps ! k),
        EvUpdateEntry (hash (is ! k)) \<lparr> info = is ! k, offset = offs ! k,
          packed_size = word_of_nat (length (ps ! k)), packfile = packid pf \<rparr>]) [0..<length ps])"
proof (induction "is" ps offs arbitrary: pf idx rule: list_induct3)
  case Nil
  show ?case by simp
next
  case (Cons i "is" p ps off offs)
  have up: "[0..<Suc (length ps)] = 0 # map Suc [0..<length ps]"
    by (metis map_Suc_upt upt_conv_Cons zero_less_Suc)
  show ?case
    by (simp add: Let_def write_fd_def Cons.IH up comp_def del: upt_Suc)
qed

lemma length_header_block:
  "length (infos t) = length (payloads t) \<Longrightarrow>
   length (header_block pf t) = 4 + length (infos t) * ENTRYSIZE"
  by (simp add: header_block_def commit_headers_length)

lemma commit_eq:
  assumes "length (infos t) = length (payloads t)"
  shows "commit pf t idx =
    (case commit_payloads (infos t) (payloads t)
          (offsets_from (word_of_nat (fileSize pf + 4 + length (infos t) * ENTRYSIZE)) (payloads t))
          (pf\<lparr> fdata := fdata pf @ header_block pf t,
               calls := calls pf @ [EvWrite (header_block pf t)],
               fileSize := fileSize pf + length (header_block pf t) \<rparr>) idx of
       (pf', idx') \<Rightarrow> Inr (pf', t\<lparr> committed := True \<rparr>, idx'))"
proof -
  let ?off = "word_of_nat (fileSize pf + 4 + length (infos t) * ENTRYSIZE) :: 32 word"
  have "snd (commit_headers (infos t) (payloads t) ?off) = offsets_from ?off (payloads t)"
    using assms by (rule commit_headers_offsets)
  then show ?thesis
    using assms
    by (simp only: commit_def Let_def write_fd_def split_beta header_block_def)
       (simp add: split_beta)
qed

lemma rle_decode_encode: "rle_decode (rle_encode bs) = bs"
proof (induction bs)
  case Nil
  show ?case by simp
next
  case (Cons b bs)
  show ?case
  proof (cases "rle_encode bs")
    case Nil
    with Cons show ?thesis by simp
  next
    case (Cons c r1)
    note outer = this
    show ?thesis
    proof (cases r1)
      case Nil
      with outer Cons.IH show ?thesis by simp
    next
      case (Cons b' rest)
      show ?thesis
      proof (cases "b' = b \<and> c < 255")
        case True
        then have "unat c < 255"
          by (simp add: word_less_nat_alt)
        then have "unat (c + 1) = Suc (unat c)"
          by (simp add: unat_word_ariths)
        with True outer Cons Cons.IH show ?thesis by auto
      next
        case False
        with outer Cons Cons.IH show ?thesis by auto
      qed
    qed
  qed
qed

lemma getCompressed_set: "getCompressed (i\<lparr> flags := flags i OR ORI_FLAG_COMPRESSED \<rparr>)"
proof -
  have "(flags i OR 1) AND 1 = (1 :: 32 word)"
    by (simp add: bit_eq_iff bit_simps) 
  then show ?thesis
    by (simp add: getCompressed_def ORI_FLAG_COMPRESSED_def)
qed

lemma unat_of_nat32: "n < 2 ^ 32 \<Longrightarrow> unat (word_of_nat n :: 32 word) = n"
  by (simp add: unat_of_nat)

lemma commit_empty:
  "infos t = [] \<Longrightarrow> payloads t = [] \<Longrightarrow>
   commit pf t idx = Inr (pf\<lparr> fdata := fdata pf @ writeInt32 0, calls := calls pf @ [EvWrite (writeInt32 0)], fileSize := fileSize pf + 4 \<rparr>, t\<lparr> committed := True \<rparr>, idx)"
  by (simp add: commit_def write_fd_def Let_def)

lemma writeInt32_zero: "writeInt32 0 = [0, 0, 0, 0]"
  by code_simp

section \<open>Lemmas about the free list\<close>

lemma basename_rooted:
  "CHR ''/'' \<notin> set name \<Longrightarrow> StrUtil_Basename (root @ CHR ''/'' # name) = name"
proof -
  assume "CHR ''/'' \<notin> set name"
  then have "takeWhile (\<lambda>c. c \<noteq> CHR ''/'') (rev name @ CHR ''/'' # rev root) = rev name"
    by (subst takeWhile_append2) auto
  then show ?thesis
    by (simp add: StrUtil_Basename_def)
qed

lemma scan_two:
  "Scan_Traverse [root @ ''/pack0.pak'', root @ ''/pack2.pak''] = [0, 2]"
proof -
  have a: "StrUtil_Basename (root @ ''/pack0.pak'') = ''pack0.pak''"
    using basename_rooted [of "''pack0.pak''" root] by simp
  have b: "StrUtil_Basename (root @ ''/pack2.pak'') = ''pack2.pak''"
    using basename_rooted [of "''pack2.pak''" root] by simp
  have c: "scan_pack_id ''pack0.pak'' = Some 0" "scan_pack_id ''pack2.pak'' = Some 2"
    by code_simp+
  show ?thesis
    by (simp add: Scan_Traverse_def a b c)
qed

lemma scan_two':
  "Scan_Traverse [root @ ''/pack2.pak'', root @ ''/pack0.pak''] = [2, 0]"
proof -
  have a: "StrUtil_Basename (root @ ''/pack0.pak'') = ''pack0.pak''"
    using basename_rooted [of "''pack0.pak''" root] by simp
  have b: "StrUtil_Basename (root @ ''/pack2.pak'') = ''pack2.pak''"
    using basename_rooted [of "''pack2.pak''" root] by simp
  have c: "scan_pack_id ''pack0.pak'' = Some 0" "scan_pack_id ''pack2.pak'' = Some 2"
    by code_simp+
  show ?thesis
    by (simp add: Scan_Traverse_def a b c)
qed

lemma recompute_02:
  "(let existing = sort [0, 2 :: 32 word]
      in if length existing > 0
         then (case recompute_loop existing 0 0 [] of
                 Inl e \<Rightarrow> Inl e
               | Inr fl \<Rightarrow> Inr (fl @ [last existing + 1]))
         else Inr [0]) = Inr [1, 3]"
  "(let existing = sort [2, 0 :: 32 word]
      in if length existing > 0
         then (case recompute_loop existing 0 0 [] of
                 Inl e \<Rightarrow> Inl e
               | Inr fl \<Rightarrow> Inr (fl @ [last existing + 1]))
         else Inr [0]) = Inr [1, 3]"
  by code_simp+

lemma newPackfiles_single:
  "newPackfiles n [k] = Inr (map (\<lambda>j. k + word_of_nat j) [0..<n], [k + word_of_nat n])"
proof (induction n arbitrary: k)
  case 0
  show ?case by simp
next
  case (Suc n)
  have "map (\<lambda>j. k + 1 + word_of_nat j) [0..<n] = map (\<lambda>j. k + word_of_nat j) (map Suc [0..<n])"
    by (simp add: add.assoc add.commute)
  also have "map Suc [0..<n] = [1..<Suc n]"
    by (simp add: map_Suc_upt)
  finally have "k # map (\<lambda>j. k + 1 + word_of_nat j) [0..<n] = map (\<lambda>j. k + word_of_nat j) [0..<Suc n]"
    by (simp add: upt_rec [of 0 "Suc n"] del: upt_Suc)
  then show ?case
    using Suc [of "k + 1"] by (simp add: newPackfile_def add.assoc add.commute del: upt_Suc)
qed

section \<open>Lemmas about the metadata log\<close>

lemma readInt32_writeInt32 [simp]: "readInt32 (writeInt32 w @ rest) = w"
proof -
  have "le_nat (le_bytes 4 (unat w)) = unat w mod 256 ^ 4"
    by (rule le_nat_le_bytes)
  moreover have "unat w < 2 ^ 32"
    using unsigned_less [of w, where ?'a = nat] by simp
  ultimately have "le_nat (le_bytes 4 (unat w)) = unat w"
    by simp
  then show ?thesis
    by (simp add: readInt32_def writeInt32_def)
qed

lemma readHash_writeHash [simp]: "readHash (writeHash h @ rest) = h"
proof -
  have "le_nat (le_bytes 32 (unat h)) = unat h mod 256 ^ 32"
    by (rule le_nat_le_bytes)
  moreover have "unat h < 2 ^ 256"
    using unsigned_less [of h, where ?'a = nat] by simp
  ultimately have "le_nat (le_bytes 32 (unat h)) = unat h"
    by simp
  then show ?thesis
    by (simp add: readHash_def writeHash_def HASH_SIZE_def)
qed

lemma map_of_rc_assign: "map_of (rc_assign h v m) k = (if k = h then Some v else map_of m k)"
  by (induction m) auto

lemma rc_get_rc_assign: "rc_get (rc_assign h v m) k = (if k = h then v else rc_get m k)"
  by (simp add: rc_get_def map_of_rc_assign)

lemma length_pairs_bytes [simp]: "length (pairs_bytes e) = 36 * length e"
  by (induction e) auto

lemma read_entries_step:
  "read_entries (Suc n) (writeHash h @ writeInt32 c @ bs) m = read_entries n bs (rc_assign h c m)"
  by (simp add: Let_def HASH_SIZE_def)

lemma pairs_bytes_Cons: "pairs_bytes ((h, c) # e) = writeHash h @ writeInt32 c @ pairs_bytes e"
  by simp

lemma assign_all_Cons: "assign_all m ((h, c) # e) = assign_all (rc_assign h c m) e"
  by simp

lemma read_entries_pairs:
  "read_entries (length e) (pairs_bytes e @ rest) m = (assign_all m e, rest)"
proof (induction e arbitrary: m)
  case Nil
  show ?case by simp
next
  case (Cons x e)
  obtain h c where x: "x = (h, c)" by (cases x)
  have "read_entries (Suc (length e)) (writeHash h @ writeInt32 c @ pairs_bytes e @ rest) m
      = read_entries (length e) (pairs_bytes e @ rest) (rc_assign h c m)"
    by (rule read_entries_step)
  then show ?case
    using Cons.IH [of "rc_assign h c m"]
    by (simp only: x pairs_bytes_Cons assign_all_Cons length_Cons append_assoc)
qed

lemma open_loop_empty: "open_loop junk st rsf [] m = (True, m)"
  by (subst open_loop.simps) simp

lemma open_loop_short:
  assumes "bs \<noteq> []" and "length bs < 4" and "st \<le> rsf + length bs"
  shows "open_loop junk st rsf bs m = (False, m)"
proof -
  have "st < rsf + 4"
    using assms by simp
  then have "unat (readInt32 (take 4 bs @ drop (length (take 4 bs)) (writeInt32 junk))) * (HASH_SIZE + 4)
      + (rsf + 4) > st"
    by simp
  then show ?thesis
    using assms(1) by (subst open_loop.simps) (simp add: Let_def)
qed

lemma open_loop_full:
  assumes "4 \<le> length bs"
  shows "open_loop junk st rsf bs m =
     (if unat (readInt32 bs) * 36 + (rsf + 4) > st then (False, m)
      else open_loop junk st (rsf + 4 + unat (readInt32 bs) * 36)
             (snd (read_entries (unat (readInt32 bs)) (drop 4 bs) m))
             (fst (read_entries (unat (readInt32 bs)) (drop 4 bs) m)))"
proof -
  have l: "length (take 4 bs) = 4"
    using assms by simp
  have r: "readInt32 (take 4 bs @ drop (length (take 4 bs)) (writeInt32 junk)) = readInt32 bs"
    using assms by (simp add: readInt32_def)
  have r2: "readInt32 (take 4 bs) = readInt32 bs"
    by (simp add: readInt32_def)
  show ?thesis
    by (subst open_loop.simps) (simp only: r l Let_def HASH_SIZE_def split_beta, simp add: r2)
qed

lemma read_entries_append:
  "36 * n \<le> length bs \<Longrightarrow>
   read_entries n (bs @ sfx) m = (fst (read_entries n bs m), snd (read_entries n bs m) @ sfx)
   \<and> length (snd (read_entries n bs m)) = length bs - 36 * n"
proof (induction n arbitrary: bs m)
  case 0
  show ?case by simp
next
  case (Suc n)
  then have len: "36 \<le> length bs" and rest: "36 * n \<le> length (drop 36 bs)"
    by simp_all
  have rh: "readHash (bs @ sfx) = readHash bs"
    using len by (simp add: readHash_def HASH_SIZE_def)
  have ri: "readInt32 (drop 32 (bs @ sfx)) = readInt32 (drop 32 bs)"
    using len by (simp add: readInt32_def)
  have dr: "drop 36 (bs @ sfx) = drop 36 bs @ sfx"
    using len by simp
  show ?case
    using Suc.IH [OF rest, of "rc_assign (readHash bs) (readInt32 (drop 32 bs)) m"]
    by (simp add: Let_def HASH_SIZE_def rh ri dr del: drop_append)
qed

lemma open_loop_append:
  assumes "open_loop junk st rsf bs m = (True, m')"
    and "rsf + length bs = st" and "st \<le> st'"
  shows "open_loop junk' st' rsf (bs @ sfx) m = open_loop junk' st' (rsf + length bs) sfx m'"
  using assms
proof (induction "length bs" arbitrary: bs rsf m rule: less_induct)
  case less
  show ?case
  proof (cases "bs = []")
    case True
    with less.prems show ?thesis by (simp add: open_loop_empty)
  next
    case False
    show ?thesis
    proof (cases "length bs < 4")
      case True
      have "open_loop junk st rsf bs m = (False, m)"
        using False True less.prems(2) by (intro open_loop_short) simp_all
      with less.prems(1) show ?thesis by simp
    next
      case False
      then have four: "4 \<le> length bs" by simp
      let ?num = "unat (readInt32 bs)"
      let ?r = "read_entries ?num (drop 4 bs) m"
      have ok: "\<not> ?num * 36 + (rsf + 4) > st"
        using less.prems(1) by (subst (asm) open_loop_full [OF four]) (auto split: if_splits)
      then have next1: "open_loop junk st (rsf + 4 + ?num * 36) (snd ?r) (fst ?r) = (True, m')"
        using less.prems(1) by (subst (asm) open_loop_full [OF four]) simp
      have enough: "36 * ?num \<le> length (drop 4 bs)"
        using ok less.prems(2) by simp
      have app: "read_entries ?num (drop 4 bs @ sfx) m = (fst ?r, snd ?r @ sfx)"
        and len: "length (snd ?r) = length (drop 4 bs) - 36 * ?num"
        using read_entries_append [OF enough, of sfx m] by simp_all
      have smaller: "length (snd ?r) < length bs"
        using len four by simp
      have pos: "rsf + 4 + ?num * 36 + length (snd ?r) = st"
        using len enough less.prems(2) four by simp
      have ih: "open_loop junk' st' (rsf + 4 + ?num * 36) (snd ?r @ sfx) (fst ?r)
          = open_loop junk' st' (rsf + 4 + ?num * 36 + length (snd ?r)) sfx m'"
        using less.hyps [OF smaller next1 pos less.prems(3)] .
      have four': "4 \<le> length (bs @ sfx)"
        using four by simp
      have rd: "readInt32 (bs @ sfx) = readInt32 bs"
        using four by (simp add: readInt32_def)
      have dr: "drop 4 (bs @ sfx) = drop 4 bs @ sfx"
        using four by simp
      have ok': "\<not> ?num * 36 + (rsf + 4) > st'"
        using ok less.prems(3) by simp
      have "open_loop junk' st' rsf (bs @ sfx) m
          = open_loop junk' st' (rsf + 4 + ?num * 36) (snd ?r @ sfx) (fst ?r)"
        using ok' by (subst open_loop_full [OF four']) (simp only: rd dr app fst_conv snd_conv if_False)
      also have "\<dots> = open_loop junk' st' (rsf + 4 + ?num * 36 + length (snd ?r)) sfx m'"
        by (rule ih)
      also have "rsf + 4 + ?num * 36 + length (snd ?r) = rsf + length bs"
        using pos less.prems(2) by simp
      finally show ?thesis .
    qed
  qed
qed


lemma length_finals [simp]: "length (finals rc cs) = length cs"
  by (induction rc cs rule: finals.induct) simp_all

lemma commit_entries_eq:
  "commit_entries cs rc ws =
     (if list_ex (\<lambda>(h, d). isEmpty h) cs then Inl AssertionFailed
      else Inr (assign_all rc (finals rc cs), ws @ pairs_bytes (finals rc cs)))"
proof (induction cs arbitrary: rc ws)
  case Nil
  show ?case by simp
next
  case (Cons x cs)
  obtain h d where x: "x = (h, d)" by (cases x)
  show ?case
    by (simp add: x Cons.IH Let_def)
qed

lemma length_entry_bytes: "length (entry_bytes e) = 4 + 36 * length e"
  by (simp add: entry_bytes_def)

lemma open_loop_entry:
  assumes small: "length e < 2 ^ 32" and fits: "rsf + 4 + 36 * length e \<le> st"
  shows "open_loop junk st rsf (entry_bytes e @ rest) m
         = open_loop junk st (rsf + 4 + 36 * length e) rest (assign_all m e)"
proof -
  have four: "4 \<le> length (entry_bytes e @ rest)"
    by (simp add: length_entry_bytes)
  have "readInt32 (entry_bytes e @ rest) = word_of_nat (length e)"
    by (simp add: entry_bytes_def)
  then have num: "unat (readInt32 (entry_bytes e @ rest)) = length e"
    using small by (simp add: unat_of_nat32)
  have dr: "drop 4 (entry_bytes e @ rest) = pairs_bytes e @ rest"
    by (simp add: entry_bytes_def)
  have ok: "\<not> length e * 36 + (rsf + 4) > st"
    using fits by simp
  show ?thesis
    using ok by (subst open_loop_full [OF four])
      (simp only: num dr read_entries_pairs fst_conv snd_conv if_False, simp add: mult.commute)
qed

lemma MetadataLog_commit_eq:
  assumes small: "length (counts tr) < 2 ^ 32"
  shows "MetadataLog_commit log tr =
     (if counts tr = [] then Inr (log, tr)
      else if list_ex (\<lambda>(h, d). isEmpty h) (counts tr) then Inl AssertionFailed
      else Inr (log\<lparr> refcounts := assign_all (refcounts log) (finals (refcounts log) (counts tr)),
                    lfile := lfile log @ entry_bytes (finals (refcounts log) (counts tr)) \<rparr>,
                tr\<lparr> counts := [] \<rparr>))"
proof -
  have "unat (word_of_nat (length (counts tr)) :: 32 word) = length (counts tr)"
    using small by (rule unat_of_nat32)
  then have z: "(word_of_nat (length (counts tr)) :: 32 word) = 0 \<longleftrightarrow> counts tr = []"
    by (cases "counts tr") auto
  show ?thesis
    by (simp add: MetadataLog_commit_def Let_def z commit_entries_eq entry_bytes_def)
qed

lemma consistent_open:
  "MetadataLog_open junk content = (True, log) \<Longrightarrow> consistent log"
proof -
  assume a: "MetadataLog_open junk content = (True, log)"
  then have l: "lfile log = content" and o: "open_loop junk (length content) 0 content [] = (True, refcounts log)"
    by (auto simp: MetadataLog_open_def split: prod.splits)
  have "open_loop junk' (length content) 0 content [] = (True, refcounts log)" for junk'
    using open_loop_append [OF o, of "length content" junk' "[]"] by (simp add: open_loop_empty)
  then show ?thesis
    by (simp add: consistent_def l)
qed

lemma consistent_reopen:
  "consistent log \<Longrightarrow> MetadataLog_open junk (lfile log) = (True, log)"
  by (simp add: consistent_def MetadataLog_open_def)

lemma consistent_commit:
  assumes c: "consistent log" and small: "length (counts tr) < 2 ^ 32"
    and ok: "MdTransaction_destroy log tr = Inr log'"
  shows "consistent log'"
proof (cases "counts tr = []")
  case True
  then have "log' = log"
    using ok by (simp add: MdTransaction_destroy_def MetadataLog_commit_eq [OF small])
  with c show ?thesis by simp
next
  case False
  let ?e = "finals (refcounts log) (counts tr)"
  have l': "log' = log\<lparr> refcounts := assign_all (refcounts log) ?e, lfile := lfile log @ entry_bytes ?e \<rparr>"
    using ok False by (simp add: MdTransaction_destroy_def MetadataLog_commit_eq [OF small] split: if_splits)
  have le: "length ?e < 2 ^ 32"
    using small by simp
  show ?thesis
    unfolding consistent_def
  proof
    fix junk
    let ?st = "length (lfile log')"
    have o: "open_loop junk (length (lfile log)) 0 (lfile log) [] = (True, refcounts log)"
      using c by (simp add: consistent_def)
    have st: "?st = length (lfile log) + (4 + 36 * length ?e)"
      by (simp add: l' length_entry_bytes)
    have "open_loop junk ?st 0 (lfile log @ entry_bytes ?e) []
        = open_loop junk ?st (0 + length (lfile log)) (entry_bytes ?e) (refcounts log)"
      using o by (rule open_loop_append) (simp_all add: st)
    also have "\<dots> = open_loop junk ?st (length (lfile log) + 4 + 36 * length ?e) [] (assign_all (refcounts log) ?e)"
      using open_loop_entry [OF le, of "length (lfile log)" ?st junk "[]" "refcounts log"]
      by (simp add: st)
    also have "\<dots> = (True, assign_all (refcounts log) ?e)"
      by (rule open_loop_empty)
    finally show "open_loop junk ?st 0 (lfile log') [] = (True, refcounts log')"
      by (simp add: l')
  qed
qed

lemma consistent_commit_all:
  "consistent log \<Longrightarrow> \<forall>tr \<in> set trs. length (counts tr) < 2 ^ 32 \<Longrightarrow>
   commit_all log trs = Inr log' \<Longrightarrow> consistent log'"
proof (induction trs arbitrary: log)
  case Nil
  then show ?case by simp
next
  case (Cons tr trs)
  from Cons.prems(3) obtain log1 where d: "MdTransaction_destroy log tr = Inr log1"
    and r: "commit_all log1 trs = Inr log'"
    by (auto split: sum.splits)
  have "consistent log1"
    using Cons.prems(1) _ d by (rule consistent_commit) (use Cons.prems(2) in simp)
  then show ?case
    using Cons.prems(2) r by (intro Cons.IH) simp_all
qed

lemma assign_all_append: "assign_all m (a @ b) = assign_all (assign_all m a) b"
  by (induction m a rule: assign_all.induct) simp_all

lemma foldl_assign_all_concat: "foldl assign_all m es = assign_all m (concat es)"
  by (induction es arbitrary: m) (simp_all add: assign_all_append)

lemma case_nonempty:
  "zs \<noteq> [] \<Longrightarrow> (case zs of [] \<Rightarrow> a | x # xs \<Rightarrow> g (x # xs)) = g zs"
  by (cases zs) simp_all

lemma map_of_assign_all:
  "map_of (assign_all m ps) h =
     (case filter (\<lambda>(k, c). k = h) ps of
        [] \<Rightarrow> map_of m h
      | x # xs \<Rightarrow> Some (snd (last (x # xs))))"
proof (induction ps rule: rev_induct)
  case Nil
  show ?case by simp
next
  case (snoc x ps)
  obtain k c where x: "x = (k, c)" by (cases x)
  have a: "assign_all m (ps @ [(k, c)]) = rc_assign k c (assign_all m ps)"
    by (simp add: assign_all_append)
  show ?case
  proof (cases "k = h")
    case True
    define f where "f = filter (\<lambda>(k, c). k = h) ps"
    have "filter (\<lambda>(k, c). k = h) (ps @ [(k, c)]) = f @ [(h, c)]"
      using True by (simp add: f_def)
    moreover have "(case f @ [(h, c)] of
        [] \<Rightarrow> map_of m h
      | x # xs \<Rightarrow> Some (snd (last (x # xs)))) = Some (snd (last (f @ [(h, c)])))"
      by (rule case_nonempty) simp
    ultimately have rhs: "(case filter (\<lambda>(k, c). k = h) (ps @ [(k, c)]) of
        [] \<Rightarrow> map_of m h
      | x # xs \<Rightarrow> Some (snd (last (x # xs)))) = Some c"
      by simp
    have lhs: "map_of (assign_all m (ps @ [(k, c)])) h = Some c"
      unfolding a by (simp add: map_of_rc_assign True)
    show ?thesis
      unfolding x by (simp only: lhs rhs)
  next
    case False
    then show ?thesis
      using snoc by (simp add: a map_of_rc_assign x)
  qed
qed

lemma length_log_bytes_Cons: "log_bytes (e # es) = entry_bytes e @ log_bytes es"
  by (simp add: log_bytes_def)

lemma open_loop_log:
  "\<forall>e \<in> set es. length e < 2 ^ 32 \<Longrightarrow> rsf + length (log_bytes es) \<le> st \<Longrightarrow>
   open_loop junk st rsf (log_bytes es @ rest) m
     = open_loop junk st (rsf + length (log_bytes es)) rest (foldl assign_all m es)"
proof (induction es arbitrary: rsf m)
  case Nil
  show ?case by (simp add: log_bytes_def)
next
  case (Cons e es)
  have small: "length e < 2 ^ 32" and rest: "\<forall>e \<in> set es. length e < 2 ^ 32"
    using Cons.prems(1) by simp_all
  have fits: "rsf + 4 + 36 * length e \<le> st"
    and fits': "(rsf + 4 + 36 * length e) + length (log_bytes es) \<le> st"
    using Cons.prems(2) by (simp_all add: length_log_bytes_Cons length_entry_bytes)
  have "open_loop junk st rsf (entry_bytes e @ log_bytes es @ rest) m
      = open_loop junk st (rsf + 4 + 36 * length e) (log_bytes es @ rest) (assign_all m e)"
    using small fits by (rule open_loop_entry)
  also have "\<dots> = open_loop junk st (rsf + 4 + 36 * length e + length (log_bytes es)) rest
       (foldl assign_all (assign_all m e) es)"
    using rest fits' by (rule Cons.IH)
  finally show ?case
    by (simp add: length_log_bytes_Cons length_entry_bytes add.assoc)
qed

lemma snd_read_entries: "snd (read_entries n bs m) = drop (36 * n) bs"
proof (induction n arbitrary: bs m)
  case 0
  show ?case by simp
next
  case (Suc n)
  have "snd (read_entries n (drop 36 bs) (rc_assign (readHash bs) (readInt32 (drop 32 bs)) m))
      = drop (36 * n) (drop 36 bs)"
    by (rule Suc.IH)
  then show ?case
    by (simp add: Let_def HASH_SIZE_def add.commute)
qed

lemma open_overrun_from:
  "p \<le> length content \<Longrightarrow>
   fst (open_loop junk (length content) p (drop p content) m)
     = (\<not> some_entry_overruns junk content p)"
proof (induction junk content p arbitrary: m rule: some_entry_overruns.induct)
  case (1 junk content p)
  let ?bs = "drop p content"
  let ?d = "declared_num junk content p"
  show ?case
  proof (cases "p \<ge> length content")
    case True
    then have "?bs = []" by simp
    moreover have "\<not> some_entry_overruns junk content p"
      using True by (subst some_entry_overruns.simps) simp
    ultimately show ?thesis
      by (simp add: open_loop_empty)
  next
    case False
    then have ne: "length (take 4 ?bs) \<noteq> 0" by simp
    show ?thesis
    proof (cases "?d * (HASH_SIZE + 4) + (p + 4) > length content")
      case True
      have "some_entry_overruns junk content p"
        using False True by (subst some_entry_overruns.simps) simp
      moreover have "open_loop junk (length content) p ?bs m = (False, m)"
        using ne True
        by (subst open_loop.simps) (simp only: Let_def declared_num_def [symmetric] if_False if_True)
      ultimately show ?thesis by simp
    next
      case ok: False
      have so: "some_entry_overruns junk content p
          = some_entry_overruns junk content (p + 4 + ?d * (HASH_SIZE + 4))"
        using False ok by (subst some_entry_overruns.simps) simp
      have le: "p + 4 + ?d * (HASH_SIZE + 4) \<le> length content"
        using ok by simp
      obtain m' bs' where r: "read_entries ?d (drop 4 ?bs) m = (m', bs')"
        by (cases "read_entries ?d (drop 4 ?bs) m")
      have "bs' = drop (36 * ?d) (drop 4 ?bs)"
        using snd_read_entries [of ?d "drop 4 ?bs" m] r by simp
      then have bs': "bs' = drop (p + 4 + ?d * (HASH_SIZE + 4)) content"
        by (simp add: HASH_SIZE_def add.commute mult.commute add.left_commute)
      have "open_loop junk (length content) p ?bs m
          = open_loop junk (length content) (p + 4 + ?d * (HASH_SIZE + 4)) bs' m'"
        using ne ok
        by (subst open_loop.simps)
           (simp only: Let_def declared_num_def [symmetric] if_False r prod.case)
      then show ?thesis
        using "1.IH" [OF False ok le, of m'] so bs' by simp
    qed
  qed
qed



section \<open>Lemmas about purge\<close>

lemma purge_headers_infos:
  "purge_headers n i fs hset tin = Inr (sizes, skip, tin', rest) \<Longrightarrow>
   \<forall>x \<in> set tin. hash x \<notin> hset \<Longrightarrow> \<forall>x \<in> set tin'. hash x \<notin> hset"
proof (induction n arbitrary: i fs tin sizes skip)
  case 0
  then show ?case by simp
next
  case (Suc n)
  let ?info = "fromString (take INFO_SIZE fs)"
  let ?tin = "if hash ?info \<in> hset then tin else tin @ [?info]"
  from Suc.prems(1) obtain sizes0 skip0 where
    r: "purge_headers n (i + 1) (drop (INFO_SIZE + 4 + 4) fs) hset ?tin = Inr (sizes0, skip0, tin', rest)"
    by (auto simp: Let_def split: if_splits sum.splits)
  have "\<forall>x \<in> set ?tin. hash x \<notin> hset"
    using Suc.prems(2) by auto
  with r show ?case
    by (rule Suc.IH)
qed

lemma purge_scan_infos:
  "purge_scan fs hset tr = Inr tr' \<Longrightarrow>
   \<forall>x \<in> set (infos tr). hash x \<notin> hset \<Longrightarrow> \<forall>x \<in> set (infos tr'). hash x \<notin> hset"
proof (induction fs hset tr rule: purge_scan.induct)
  case (1 fs hset tr)
  show ?case
  proof (cases "fs = [] \<or> length fs < 4")
    case True
    have "purge_scan fs hset tr = Inr tr"
      using True by (subst purge_scan.simps) auto
    then have "tr' = tr"
      using "1.prems"(1) by simp
    with "1.prems"(2) show ?thesis by simp
  next
    case False
    then have ne: "fs \<noteq> []" and l4: "\<not> length fs < 4" by simp_all
    from "1.prems"(1) obtain sizes skip tinfos rest tpayloads rest' where
      h: "purge_headers (unat (readInt32 fs)) 0 (drop 4 fs) hset (infos tr) = Inr (sizes, skip, tinfos, rest)"
      and p: "purge_payloads sizes 0 skip rest (payloads tr) = Inr (tpayloads, rest')"
      and r: "purge_scan rest' hset (tr\<lparr> infos := tinfos, payloads := tpayloads \<rparr>) = Inr tr'"
      using ne l4 by (subst (asm) purge_scan.simps) (auto split: sum.splits)
    have "\<forall>x \<in> set tinfos. hash x \<notin> hset"
      using h "1.prems"(2) by (rule purge_headers_infos)
    then have "\<forall>x \<in> set (infos (tr\<lparr> infos := tinfos, payloads := tpayloads \<rparr>)). hash x \<notin> hset"
      by simp
    with "1.IH" [OF ne l4 h refl refl refl p refl r] show ?thesis
      by simp
  qed
qed

lemma commit_payloads_updates:
  "h \<notin> hash ` set is \<Longrightarrow>
   filter (\<lambda>e. update_of e = Some h) (calls (fst (commit_payloads is ps offs pf idx)))
     = filter (\<lambda>e. update_of e = Some h) (calls pf)"
  by (induction "is" ps offs pf idx rule: commit_payloads.induct)
     (auto simp add: Let_def write_fd_def)

section \<open>The claims\<close>

text \<open>
  C1 (pack round trip), as amended. Staging \<open>addPayload(info, p)\<close> in a transaction with
  as many infos as payloads, committing it and reading back through \<open>getPayload\<close> applied
  to the index entry of \<open>info.hash\<close> yields exactly \<open>p\<close>, whether the payload is stored
  raw or compressed, provided the compressed flag of \<open>info\<close> as passed in is set only if
  the admission test compresses \<open>p\<close>. The other hypotheses state the setting: the pack's
  \<open>fileSize\<close> is the size of its file; the committed group ends below \<open>2^32\<close> (offsets
  and stored sizes are 32-bit); and, only for a payload that the admission test
  compresses, the decompressing stream that \<open>getPayload\<close> builds over the compressed
  bytes with the declared size \<open>info.payload_size\<close> yields \<open>p\<close>. Nothing is asked of the
  codec or of \<open>info.payload_size\<close> when the payload is stored raw.
\<close>

theorem pack_roundtrip_flag_clear:
  fixes cfg :: Compression
  assumes wf: "length (infos t0) = length (payloads t0)"
    and fs: "fileSize pf = length (fdata pf)"
    and flag: "getCompressed info0 \<longrightarrow>
                 enabled cfg \<and> length p > ZIP_MINIMUM_SIZE cfg \<and> ratio_ok cfg p"
    and fit: "length (fdata pf) + 4 + length (infos (addPayload cfg t0 info0 p)) * ENTRYSIZE
                + length (concat (payloads (addPayload cfg t0 info0 p))) < 2 ^ 32"
    and codec: "enabled cfg \<and> length p > ZIP_MINIMUM_SIZE cfg \<and> ratio_ok cfg p \<longrightarrow>
                  decompress cfg (unat (payload_size info0)) (compress cfg p) = p"
  shows "roundtrip cfg pf t0 idx info0 p = Inr p"
proof -
  define t where "t = addPayload cfg t0 info0 p"
  define dc where "dc \<longleftrightarrow> enabled cfg \<and> length p > ZIP_MINIMUM_SIZE cfg \<and> ratio_ok cfg p"
  define info1 where "info1 = (if dc then info0\<lparr> flags := flags info0 OR ORI_FLAG_COMPRESSED \<rparr> else info0)"
  define stored where "stored = (if dc then compress cfg p else p)"
  define n where "n = length (infos t0)"
  define base where "base = fileSize pf + 4 + length (infos t) * ENTRYSIZE"
  define pfh where "pfh = pf\<lparr> fdata := fdata pf @ header_block pf t,
               calls := calls pf @ [EvWrite (header_block pf t)],
               fileSize := fileSize pf + length (header_block pf t) \<rparr>"
  have ti: "infos t = infos t0 @ [info1]" and tp: "payloads t = payloads t0 @ [stored]"
    by (simp_all add: t_def addPayload_def Let_def info1_def stored_def dc_def)
  have wft: "length (infos t) = length (payloads t)"
    using wf ti tp by simp
  have h1: "hash info1 = hash info0" and ps1: "payload_size info1 = payload_size info0"
    by (simp_all add: info1_def)
  obtain pf' idx' where cp: "commit_payloads (infos t) (payloads t)
          (offsets_from (word_of_nat base) (payloads t)) pfh idx = (pf', idx')"
    by (cases "commit_payloads (infos t) (payloads t) (offsets_from (word_of_nat base) (payloads t)) pfh idx")
  have ce: "commit pf t idx = Inr (pf', t\<lparr> committed := True \<rparr>, idx')"
    using commit_eq [OF wft, of pf idx] cp by (simp add: base_def pfh_def)
  let ?off = "word_of_nat base + word_of_nat (length (concat (payloads t0))) :: 32 word"
  let ?ie = "\<lparr> info = info1, offset = ?off, packed_size = word_of_nat (length stored), packfile = packid pf \<rparr>"
  have offs: "offsets_from (word_of_nat base) (payloads t)
      = offsets_from (word_of_nat base) (payloads t0) @ [?off]"
    by (simp add: tp offsets_from_snoc)
  have "snd (commit_payloads (infos t0 @ [info1]) (payloads t0 @ [stored])
          (offsets_from (word_of_nat base) (payloads t0) @ [?off]) pfh idx) (hash info1)
        = Some \<lparr> info = info1, offset = ?off, packed_size = word_of_nat (length stored), packfile = packid pfh \<rparr>"
    by (rule commit_payloads_index_last) (simp_all add: wf)
  then have look: "lookup idx' (hash info0) = Some ?ie"
    using cp by (simp add: ti tp offsets_from_snoc lookup_def h1 pfh_def)
  have lo: "length (payloads t) = length (offsets_from (word_of_nat base :: 32 word) (payloads t))"
    by simp
  have fdat: "fdata pf' = fdata pfh @ concat (payloads t)" and pid: "packid pf' = packid pfh"
    using commit_payloads_file [OF wft lo, of pfh idx] by (simp_all only: cp fst_conv)
  have lh: "length (header_block pf t) = 4 + length (infos t) * ENTRYSIZE"
    using wft by (rule length_header_block)
  have fdat2: "fdata pf' = (fdata pf @ header_block pf t @ concat (payloads t0)) @ stored"
    by (simp add: fdat pfh_def tp)
  have bound: "base + length (concat (payloads t0)) + length stored < 2 ^ 32"
    using fit by (simp add: base_def fs tp t_def [symmetric])
  have "?off = word_of_nat (base + length (concat (payloads t0)))"
    by simp
  then have "unat ?off = base + length (concat (payloads t0))"
    using bound unat_of_nat32 [of "base + length (concat (payloads t0))"] by simp
  then have uoff: "unat ?off = length (fdata pf @ header_block pf t @ concat (payloads t0))"
    by (simp add: base_def fs lh)
  have usz: "unat (word_of_nat (length stored) :: 32 word) = length stored"
    using bound by (intro unat_of_nat32) simp
  have rd: "take (unat (packed_size ?ie)) (drop (unat (offset ?ie)) (fdata pf')) = stored"
    by (simp only: IndexEntry.simps uoff usz fdat2 drop_append) simp
  have gp: "getPayload cfg pf' ?ie = Inr p"
  proof (cases dc)
    case True
    then have "getCompressed info1" and "stored = compress cfg p" and "enabled cfg"
      and "decompress cfg (unat (payload_size info0)) (compress cfg p) = p"
      using codec by (simp_all add: info1_def getCompressed_set stored_def dc_def)
    then show ?thesis
      using rd pid by (simp add: getPayload_def Let_def pfh_def ps1)
  next
    case False
    then have "\<not> getCompressed info1" and "stored = p"
      using flag by (auto simp add: info1_def stored_def dc_def)
    then show ?thesis
      using rd pid by (simp add: getPayload_def Let_def pfh_def)
  qed
  show ?thesis
    using ce look gp by (simp add: roundtrip_def t_def [symmetric])
qed

theorem pack_roundtrip_witness:
  "length (infos begin_tx) = length (payloads begin_tx)
   \<and> fileSize (Packfile_open [] 0) = length (fdata (Packfile_open [] 0))
   \<and> \<not> getCompressed \<lparr> hash = 7, kind = 3, flags = 0, payload_size = 12 \<rparr>
   \<and> enabled rle_cfg
   \<and> length [65, 65, 65, 65, 65, 65, 65, 65, 65, 65, 65, 65 :: byte] > ZIP_MINIMUM_SIZE rle_cfg
   \<and> ratio_ok rle_cfg [65, 65, 65, 65, 65, 65, 65, 65, 65, 65, 65, 65]
   \<and> decompress rle_cfg (unat (payload_size \<lparr> hash = 7, kind = 3, flags = 0, payload_size = 12 \<rparr>))
        (compress rle_cfg [65, 65, 65, 65, 65, 65, 65, 65, 65, 65, 65, 65])
        = [65, 65, 65, 65, 65, 65, 65, 65, 65, 65, 65, 65]
   \<and> roundtrip rle_cfg (Packfile_open [] 0) begin_tx Map.empty
        \<lparr> hash = 7, kind = 3, flags = 0, payload_size = 12 \<rparr>
        [65, 65, 65, 65, 65, 65, 65, 65, 65, 65, 65, 65]
      = Inr [65, 65, 65, 65, 65, 65, 65, 65, 65, 65, 65, 65]"
proof -
  let ?i = "\<lparr> hash = 7, kind = 3, flags = 0, payload_size = 12 \<rparr> :: ObjectInfo"
  let ?p = "[65, 65, 65, 65, 65, 65, 65, 65, 65, 65, 65, 65] :: bytes"
  have wf: "length (infos begin_tx) = length (payloads begin_tx)"
    by (simp add: begin_tx_def)
  have fs: "fileSize (Packfile_open [] 0) = length (fdata (Packfile_open [] 0))"
    by (simp add: Packfile_open_def)
  have nc: "\<not> getCompressed ?i"
    by (simp add: getCompressed_def)
  then have flag: "getCompressed ?i \<longrightarrow>
      enabled rle_cfg \<and> length ?p > ZIP_MINIMUM_SIZE rle_cfg \<and> ratio_ok rle_cfg ?p"
    by simp
  have "length (fdata (Packfile_open [] 0)) + 4
      + length (infos (addPayload rle_cfg begin_tx ?i ?p)) * ENTRYSIZE
      + length (concat (payloads (addPayload rle_cfg begin_tx ?i ?p))) = 62"
    by code_simp
  then have fit: "length (fdata (Packfile_open [] 0)) + 4
      + length (infos (addPayload rle_cfg begin_tx ?i ?p)) * ENTRYSIZE
      + length (concat (payloads (addPayload rle_cfg begin_tx ?i ?p))) < 2 ^ 32"
    by simp
  have adm: "enabled rle_cfg" "length ?p > ZIP_MINIMUM_SIZE rle_cfg" "ratio_ok rle_cfg ?p"
    by code_simp+
  have rt: "decompress rle_cfg (unat (payload_size ?i)) (compress rle_cfg ?p) = ?p"
    by code_simp
  then have codec: "enabled rle_cfg \<and> length ?p > ZIP_MINIMUM_SIZE rle_cfg \<and> ratio_ok rle_cfg ?p \<longrightarrow>
      decompress rle_cfg (unat (payload_size ?i)) (compress rle_cfg ?p) = ?p"
    by simp
  have "roundtrip rle_cfg (Packfile_open [] 0) begin_tx Map.empty ?i ?p = Inr ?p"
    using pack_roundtrip_flag_clear [OF wf fs flag fit codec, of Map.empty] .
  then show ?thesis
    using wf fs nc adm rt by (intro conjI)
qed

text \<open>
  C1 as stated fails: an info whose compressed flag is already set and whose payload is
  stored raw (here five bytes, below the minimum size) is read back through the
  decompressor, which does not return the payload.
\<close>

theorem pack_roundtrip_counterexample:
  "roundtrip rle_cfg (Packfile_open [] 0) begin_tx Map.empty
     \<lparr> hash = 7, kind = 3, flags = 1, payload_size = 5 \<rparr> [104, 101, 108, 108, 111]
     \<noteq> Inr [104, 101, 108, 108, 111]
   \<and> roundtrip rle_cfg (Packfile_open [] 0) begin_tx Map.empty
     \<lparr> hash = 7, kind = 3, flags = 1, payload_size = 5 \<rparr> [104, 101, 108, 108, 111]
     = Inr (replicate 104 101 @ replicate 108 108)"
  by code_simp

text \<open>
  C5 (single-object commit layout). From an empty pack with id 0, with \<open>INFO_SIZE = 48\<close>,
  committing one transaction that holds the single five-byte payload \<open>hello\<close>, stored
  uncompressed, leaves \<open>fileSize = 65\<close> (and a file of 65 bytes) and the index entry
  \<open>{offset = 60, packed_size = 5, packfile = 0}\<close> for its hash.
\<close>

theorem single_object_layout:
  assumes raw: "\<not> (enabled cfg \<and> 5 > ZIP_MINIMUM_SIZE cfg \<and> ratio_ok cfg [104, 101, 108, 108, 111])"
  shows "\<exists>pf' t' idx'.
      commit (Packfile_open [] 0) (addPayload cfg begin_tx i [104, 101, 108, 108, 111]) idx
        = Inr (pf', t', idx')
      \<and> fileSize pf' = 65 \<and> length (fdata pf') = 65
      \<and> lookup idx' (hash i) = Some \<lparr> info = i, offset = 60, packed_size = 5, packfile = 0 \<rparr>"
proof -
  have t: "addPayload cfg begin_tx i [104, 101, 108, 108, 111]
      = \<lparr> infos = [i], payloads = [[104, 101, 108, 108, 111]], hashToIx = [hash i \<mapsto> 0],
          totalSize = 5, committed = False \<rparr>"
    using raw by (auto simp add: addPayload_def begin_tx_def Let_def)
  show ?thesis
    unfolding t
    by (simp add: commit_def Packfile_open_def Let_def write_fd_def ENTRYSIZE_def INFO_SIZE_def
        lookup_def updateEntry_def)
qed

theorem single_object_layout_witness:
  "\<not> (enabled rle_cfg \<and> 5 > ZIP_MINIMUM_SIZE rle_cfg \<and> ratio_ok rle_cfg [104, 101, 108, 108, 111])
   \<and> (\<exists>pf' t' idx'.
      commit (Packfile_open [] 0)
        (addPayload rle_cfg begin_tx \<lparr> hash = 7, kind = 3, flags = 0, payload_size = 5 \<rparr>
           [104, 101, 108, 108, 111]) Map.empty
        = Inr (pf', t', idx')
      \<and> fileSize pf' = 65 \<and> length (fdata pf') = 65
      \<and> lookup idx' (hash \<lparr> hash = 7, kind = 3, flags = 0, payload_size = 5 \<rparr>)
          = Some \<lparr> info = \<lparr> hash = 7, kind = 3, flags = 0, payload_size = 5 \<rparr>, offset = 60, packed_size = 5, packfile = 0 \<rparr>)"
proof -
  have raw: "\<not> (enabled rle_cfg \<and> 5 > ZIP_MINIMUM_SIZE rle_cfg \<and> ratio_ok rle_cfg [104, 101, 108, 108, 111])"
    by (simp add: rle_cfg_def)
  show ?thesis
    using raw single_object_layout [OF raw, of "\<lparr> hash = 7, kind = 3, flags = 0, payload_size = 5 \<rparr>" Map.empty]
    by blast
qed
text \<open>
  C3 (index-update ordering), as amended. In \<open>Packfile::commit\<close> the header block is
  written first; then, for each object in order, its payload is written and its
  \<open>updateEntry\<close> call follows at once. So every \<open>updateEntry\<close> call comes strictly after
  the header block and after the payload bytes of its own object and of the objects
  before it; the payloads of the later objects of the group are written after it.
\<close>

theorem commit_updates_follow_own_payload:
  assumes wf: "length (infos t) = length (payloads t)"
  shows "commit_calls pf t idx =
     EvWrite (header_block pf t)
       # concat (map (\<lambda>k. [EvWrite (payloads t ! k),
            EvUpdateEntry (hash (infos t ! k))
              \<lparr> info = infos t ! k,
                offset = offsets_from (word_of_nat (fileSize pf + 4 + length (infos t) * ENTRYSIZE))
                           (payloads t) ! k,
                packed_size = word_of_nat (length (payloads t ! k)),
                packfile = packid pf \<rparr>])
          [0..<length (payloads t)])"
proof -
  let ?offs = "offsets_from (word_of_nat (fileSize pf + 4 + length (infos t) * ENTRYSIZE)) (payloads t)"
  let ?pfh = "pf\<lparr> fdata := fdata pf @ header_block pf t,
               calls := calls pf @ [EvWrite (header_block pf t)],
               fileSize := fileSize pf + length (header_block pf t) \<rparr>"
  obtain pf' idx' where cp: "commit_payloads (infos t) (payloads t) ?offs ?pfh idx = (pf', idx')"
    by (cases "commit_payloads (infos t) (payloads t) ?offs ?pfh idx")
  have ce: "commit pf t idx = Inr (pf', t\<lparr> committed := True \<rparr>, idx')"
    using commit_eq [OF wf, of pf idx] cp by simp
  have lo: "length (payloads t) = length ?offs"
    by simp
  have "calls (fst (commit_payloads (infos t) (payloads t) ?offs ?pfh idx)) =
     calls ?pfh @ concat (map (\<lambda>k. [EvWrite (payloads t ! k),
        EvUpdateEntry (hash (infos t ! k)) \<lparr> info = infos t ! k, offset = ?offs ! k,
          packed_size = word_of_nat (length (payloads t ! k)), packfile = packid ?pfh \<rparr>])
          [0..<length (payloads t)])"
    using wf lo by (rule commit_payloads_calls)
  then have "calls pf' = calls pf @ EvWrite (header_block pf t) #
      concat (map (\<lambda>k. [EvWrite (payloads t ! k),
        EvUpdateEntry (hash (infos t ! k)) \<lparr> info = infos t ! k, offset = ?offs ! k,
          packed_size = word_of_nat (length (payloads t ! k)), packfile = packid pf \<rparr>])
          [0..<length (payloads t)])"
    by (simp only: cp fst_conv) simp
  then show ?thesis
    by (simp add: commit_calls_def ce)
qed

theorem commit_updates_follow_own_payload_witness:
  "length (infos two_objects) = length (payloads two_objects)
   \<and> commit_calls (Packfile_open [] 0) two_objects Map.empty =
       [EvWrite (header_block (Packfile_open [] 0) two_objects),
        EvWrite [17],
        EvUpdateEntry 1 \<lparr> info = \<lparr> hash = 1, kind = 3, flags = 0, payload_size = 1 \<rparr>,
                          offset = 116, packed_size = 1, packfile = 0 \<rparr>,
        EvWrite [18],
        EvUpdateEntry 2 \<lparr> info = \<lparr> hash = 2, kind = 3, flags = 0, payload_size = 1 \<rparr>,
                          offset = 117, packed_size = 1, packfile = 0 \<rparr>]"
proof -
  have wf: "length (infos two_objects) = length (payloads two_objects)"
    by code_simp
  have ti: "infos two_objects = [\<lparr> hash = 1, kind = 3, flags = 0, payload_size = 1 \<rparr>,
                                 \<lparr> hash = 2, kind = 3, flags = 0, payload_size = 1 \<rparr>]"
    and tp: "payloads two_objects = [[17], [18]]"
    by code_simp+
  show ?thesis
    using wf commit_updates_follow_own_payload [OF wf, of "Packfile_open [] 0" Map.empty]
    by (simp add: ti tp upt_rec [of 0] upt_rec [of 1] Packfile_open_def ENTRYSIZE_def INFO_SIZE_def)
qed

text \<open>
  C3 as stated fails. In a commit of two objects the index update of the first object
  precedes the write of the second payload; in \<open>Packfile::receive\<close> the index is updated
  while the headers are read, before the header block and the payloads are written.
\<close>

theorem index_update_order_counterexample:
  "map is_write (commit_calls (Packfile_open [] 0) two_objects Map.empty)
     = [True, True, False, True, False]
   \<and> \<not> updates_after_all_writes (commit_calls (Packfile_open [] 0) two_objects Map.empty)
   \<and> map is_write (receive_calls (Packfile_open [] 0) one_object_stream Map.empty)
     = [False, True, True]
   \<and> \<not> updates_after_all_writes (receive_calls (Packfile_open [] 0) one_object_stream Map.empty)"
  by code_simp


text \<open>
  C8 (free-list recovery and allocation order). When the free-list file cannot be read
  and the directory holds exactly \<open>pack0.pak\<close> and \<open>pack2.pak\<close> (found in either
  order), the manager starts with the free list \<open>[1, 3]\<close>; successive \<open>newPackfile\<close>
  calls return 1, then 3, then 4, 5, and so on, and leave the one-element list holding
  the next fresh id, so the list is never empty.
\<close>

theorem free_list_recovery:
  "PackfileManager_init None [root @ ''/pack0.pak'', root @ ''/pack2.pak''] = Inr [1, 3]
   \<and> PackfileManager_init None [root @ ''/pack2.pak'', root @ ''/pack0.pak''] = Inr [1, 3]
   \<and> newPackfiles 1 [1, 3] = Inr ([1], [3])
   \<and> newPackfiles (Suc (Suc n)) [1, 3]
       = Inr (1 # 3 # map (\<lambda>j. 4 + word_of_nat j) [0..<n], [4 + word_of_nat n])"
proof -
  have a: "PackfileManager_init None [root @ ''/pack0.pak'', root @ ''/pack2.pak''] = Inr [1, 3]"
    unfolding PackfileManager_init_def recomputeFreeList_def scan_two option.case
    by (rule recompute_02)
  have b: "PackfileManager_init None [root @ ''/pack2.pak'', root @ ''/pack0.pak''] = Inr [1, 3]"
    unfolding PackfileManager_init_def recomputeFreeList_def scan_two' option.case
    by (rule recompute_02)
  have c: "newPackfiles 1 [1, 3] = Inr ([1], [3])"
    by (simp add: newPackfile_def)
  have d: "newPackfiles (Suc (Suc n)) [1, 3]
       = Inr (1 # 3 # map (\<lambda>j. 4 + word_of_nat j) [0..<n], [4 + word_of_nat n])"
    by (simp add: newPackfile_def newPackfiles_single)
  show ?thesis
    using a b c d by simp
qed


text \<open>
  C10 (empty pack transaction). Destroying an uncommitted pack transaction that holds no
  object commits it: a group header of four bytes with \<open>num = 0\<close> is appended,
  \<open>fileSize\<close> grows by 4, \<open>numObjects\<close> and the index are unchanged; destroying an
  empty metadata transaction leaves the log as it is.
\<close>

theorem empty_pack_transaction_writes_header:
  "\<exists>pf'. PfTransaction_destroy pf (t\<lparr> infos := [], payloads := [], committed := False \<rparr>) idx = Inr (pf', idx)
     \<and> fdata pf' = fdata pf @ [0, 0, 0, 0]
     \<and> fileSize pf' = fileSize pf + 4
     \<and> numObjects pf' = numObjects pf
     \<and> MdTransaction_destroy log (tr\<lparr> counts := [] \<rparr>) = Inr log"
  by (simp add: PfTransaction_destroy_def commit_empty MdTransaction_destroy_def
      MetadataLog_commit_def writeInt32_zero)


text \<open>
  C2 (log recovery round trip). Take a log that \<open>open\<close> has read successfully and a
  sequence of transactions committed to it, each commit running to its end (no commit
  stops at the assertion on an empty hash) and each transaction holding fewer than
  \<open>2^32\<close> counts, the range of the count field \<open>u32 num\<close>. Reopening the file as the
  last commit leaves it succeeds and rebuilds exactly the map held in memory at that
  point. Moreover, on every file that is a sequence of entries \<open>es\<close>, \<open>open\<close> succeeds
  and leaves, for every hash, the count written in the last entry that contains the hash
  (no count when no entry contains it).
\<close>

theorem log_recovery:
  assumes opened: "MetadataLog_open junk content = (True, log0)"
    and small: "\<forall>tr \<in> set trs. length (counts tr) < 2 ^ 32"
    and committed: "commit_all log0 trs = Inr log"
    and entries: "\<forall>e \<in> set es. length e < 2 ^ 32"
  shows "MetadataLog_open junk' (lfile log) = (True, log)
     \<and> (\<exists>log1. MetadataLog_open junk' (log_bytes es) = (True, log1)
           \<and> (\<forall>h. map_of (refcounts log1) h = last_written es h))"
proof -
  have "consistent log0"
    using opened by (rule consistent_open)
  then have "consistent log"
    using small committed by (rule consistent_commit_all)
  then have a: "MetadataLog_open junk' (lfile log) = (True, log)"
    by (rule consistent_reopen)
  have "open_loop junk' (length (log_bytes es)) 0 (log_bytes es @ []) []
      = open_loop junk' (length (log_bytes es)) (0 + length (log_bytes es)) [] (foldl assign_all [] es)"
    using entries by (rule open_loop_log) simp
  then have o: "open_loop junk' (length (log_bytes es)) 0 (log_bytes es) []
      = (True, assign_all [] (concat es))"
    by (simp add: open_loop_empty foldl_assign_all_concat)
  have "map_of (assign_all [] (concat es)) h = last_written es h" for h
    by (simp add: map_of_assign_all last_written_def split: list.splits)
  then have b: "\<exists>log1. MetadataLog_open junk' (log_bytes es) = (True, log1)
           \<and> (\<forall>h. map_of (refcounts log1) h = last_written es h)"
    by (simp add: MetadataLog_open_def o)
  show ?thesis
    using a b by simp
qed

theorem log_recovery_witness:
  "MetadataLog_open 0 (log_bytes [[(1, 1)], [(1, 3), (2, 1)]])
     = (True, \<lparr> lfile = log_bytes [[(1, 1)], [(1, 3), (2, 1)]], refcounts = [(1, 3), (2, 1)] \<rparr>)
   \<and> (\<exists>log1. MetadataLog_open 0 (log_bytes [[(1, 1)], [(1, 3), (2, 1)]]) = (True, log1)
           \<and> (\<forall>h. map_of (refcounts log1) h = last_written [[(1, 1)], [(1, 3), (2, 1)]] h))"
proof -
  let ?fresh = "\<lparr> lfile = [], refcounts = [] \<rparr> :: MetadataLog"
  let ?trs = "[\<lparr> counts = [(1, 1)] \<rparr>, \<lparr> counts = [(1, 2), (2, 1)] \<rparr>] :: MdTransaction list"
  let ?final = "\<lparr> lfile = log_bytes [[(1, 1)], [(1, 3), (2, 1)]], refcounts = [(1, 3), (2, 1)] \<rparr> :: MetadataLog"
  have opened: "MetadataLog_open 0 [] = (True, ?fresh)"
    by code_simp
  have small: "\<forall>tr \<in> set ?trs. length (counts tr) < 2 ^ 32"
    by simp
  have committed: "commit_all ?fresh ?trs = Inr ?final"
    by code_simp
  have entries: "\<forall>e \<in> set [[(1, 1)], [(1, 3), (2 :: ObjectHash, 1 :: refcount_t)]]. length e < 2 ^ 32"
    by simp
  have "MetadataLog_open 0 (lfile ?final) = (True, ?final)
     \<and> (\<exists>log1. MetadataLog_open 0 (log_bytes [[(1, 1)], [(1, 3), (2, 1)]]) = (True, log1)
           \<and> (\<forall>h. map_of (refcounts log1) h = last_written [[(1, 1)], [(1, 3), (2, 1)]] h))"
    using opened small committed entries by (rule log_recovery)
  then show ?thesis
    unfolding MetadataLog.select_convs .
qed

text \<open>
  C7 (corruption detection in the metadata log). \<open>MetadataLog::open\<close> returns failure
  exactly when some entry it reaches declares a count \<open>num\<close> with
  \<open>num * (HASH_SIZE + 4) + readSoFar > file_size\<close>, where \<open>readSoFar\<close> is the number of
  bytes up to and including the count field of that entry; otherwise it reads entry
  after entry to the end of the file and returns success. (\<open>size_t\<close> is taken to be 64
  bits wide, so the left-hand side does not wrap.)
\<close>

theorem open_reports_corruption:
  "fst (MetadataLog_open junk content) = (\<not> some_entry_overruns junk content 0)"
  using open_overrun_from [of 0 content junk "[]"]
  by (simp add: MetadataLog_open_def split_beta)


text \<open>
  C9 (addRef without a transaction). For a hash that passes the assertion in
  \<open>MetadataLog::commit\<close> (it is not the empty hash), \<open>addRef(hash)\<close> without a transaction
  returns with one entry appended to the log, holding the single pair
  \<open>(hash, refcounts[hash] + 1)\<close>, and with the in-memory map updated; no transaction is
  left pending. With a transaction supplied, the log is left as it is and the delta is
  recorded in the transaction.
\<close>

theorem addRef_commits_at_once:
  assumes ne: "\<not> isEmpty h"
  shows "addRef log h None
           = Inr (log\<lparr> lfile := lfile log @ entry_bytes [(h, getRefCount log h + 1)],
                       refcounts := rc_assign h (getRefCount log h + 1) (refcounts log) \<rparr>,
                  None)
         \<and> addRef log h (Some tr)
           = Inr (log, Some (tr\<lparr> counts := rc_assign h (rc_get (counts tr) h + 1) (counts tr) \<rparr>))"
proof -
  have g: "getRefCount log h = rc_get (refcounts log) h"
    by (simp add: getRefCount_def rc_get_def)
  have one: "rc_get [] h = 0"
    by (simp add: rc_get_def)
  have small: "length (counts \<lparr> counts = [(h, 1)] \<rparr>) < 2 ^ 32"
    by simp
  have c: "MetadataLog_commit log \<lparr> counts = [(h, 1)] \<rparr>
      = Inr (log\<lparr> refcounts := rc_assign h (rc_get (refcounts log) h + 1) (refcounts log),
                  lfile := lfile log @ entry_bytes [(h, rc_get (refcounts log) h + 1)] \<rparr>,
             \<lparr> counts = [] \<rparr>)"
    using ne by (simp add: MetadataLog_commit_eq [OF small])
  show ?thesis
    by (simp add: addRef_def MdTransaction_begin_def one MdTransaction_destroy_def c g)
qed

theorem addRef_commits_at_once_witness:
  "\<not> isEmpty 7
   \<and> addRef \<lparr> lfile = [], refcounts = [] \<rparr> 7 None
       = Inr (\<lparr> lfile = entry_bytes [(7, 1)], refcounts = [(7, 1)] \<rparr>, None)"
proof -
  have ne: "\<not> isEmpty 7"
    by (simp add: isEmpty_def)
  have "addRef \<lparr> lfile = [], refcounts = [] \<rparr> 7 None
           = Inr (\<lparr> lfile = [], refcounts = [] \<rparr>
                    \<lparr> lfile := lfile \<lparr> lfile = [], refcounts = [] \<rparr>
                       @ entry_bytes [(7, getRefCount \<lparr> lfile = [], refcounts = [] \<rparr> 7 + 1)],
                       refcounts := rc_assign 7 (getRefCount \<lparr> lfile = [], refcounts = [] \<rparr> 7 + 1)
                          (refcounts \<lparr> lfile = [], refcounts = [] \<rparr>) \<rparr>,
                  None)"
    using addRef_commits_at_once [OF ne, of "\<lparr> lfile = [], refcounts = [] \<rparr>"] by (rule conjunct1)
  then show ?thesis
    using ne by (simp add: getRefCount_def)
qed







text \<open>
  C4 (purge), as amended. \<open>Packfile::purge(H, index)\<close> makes no \<open>updateEntry\<close> call for a
  hash in \<open>H\<close> and has no other access to the index: when it has completed, including
  the commit of the surviving transaction, the index answers for every hash in \<open>H\<close>
  exactly what it answered before the call.
\<close>

theorem purge_leaves_index_entries:
  assumes p: "purge pf hset tmp idx = Inr (emp, pf', idx')"
    and h: "h \<in> hset"
  shows "lookup idx' h = lookup idx h
     \<and> filter (\<lambda>e. update_of e = Some h) (calls pf')
         = filter (\<lambda>e. update_of e = Some h) (calls pf)"
proof -
  from p obtain tr where s: "purge_scan (fdata pf) hset begin_tx = Inr tr"
    and d: "PfTransaction_destroy (pf\<lparr> fdata := tmp \<rparr>) tr idx = Inr (pf', idx')"
    by (auto simp: purge_def Let_def split: sum.splits)
  have "\<forall>x \<in> set (infos tr). hash x \<notin> hset"
    using s by (rule purge_scan_infos) (simp add: begin_tx_def)
  then have nh: "h \<notin> hash ` set (infos tr)"
    using h by auto
  show ?thesis
  proof (cases "committed tr")
    case True
    then have "pf' = pf\<lparr> fdata := tmp \<rparr>" and "idx' = idx"
      using d by (simp_all add: PfTransaction_destroy_def)
    then show ?thesis by simp
  next
    case False
    let ?pf1 = "pf\<lparr> fdata := tmp \<rparr>"
    from d False obtain t' where c: "commit ?pf1 tr idx = Inr (pf', t', idx')"
      by (auto simp: PfTransaction_destroy_def split: sum.splits)
    then have wf: "length (infos tr) = length (payloads tr)"
      by (auto simp: commit_def split: if_splits)
    let ?offs = "offsets_from (word_of_nat (fileSize ?pf1 + 4 + length (infos tr) * ENTRYSIZE)) (payloads tr)"
    let ?pfh = "?pf1\<lparr> fdata := fdata ?pf1 @ header_block ?pf1 tr,
               calls := calls ?pf1 @ [EvWrite (header_block ?pf1 tr)],
               fileSize := fileSize ?pf1 + length (header_block ?pf1 tr) \<rparr>"
    have cp: "commit_payloads (infos tr) (payloads tr) ?offs ?pfh idx = (pf', idx')"
      using c commit_eq [OF wf, of ?pf1 idx] by (auto split: prod.splits)
    have "snd (commit_payloads (infos tr) (payloads tr) ?offs ?pfh idx) h = idx h"
      using nh by (rule commit_payloads_index_other)
    then have a: "lookup idx' h = lookup idx h"
      by (simp only: cp snd_conv lookup_def)
    have "filter (\<lambda>e. update_of e = Some h)
            (calls (fst (commit_payloads (infos tr) (payloads tr) ?offs ?pfh idx)))
        = filter (\<lambda>e. update_of e = Some h) (calls ?pfh)"
      using nh by (rule commit_payloads_updates)
    then have b: "filter (\<lambda>e. update_of e = Some h) (calls pf')
        = filter (\<lambda>e. update_of e = Some h) (calls pf)"
      by (simp only: cp fst_conv) simp
    show ?thesis
      using a b by simp
  qed
qed

theorem purge_leaves_index_entries_witness:
  "1 \<in> {1 :: ObjectHash}
   \<and> purge_lookup (fst (committed_pack two_objects)) {1} [] (snd (committed_pack two_objects)) 1
       = Inr (lookup (snd (committed_pack two_objects)) 1)"
proof -
  let ?P = "fst (committed_pack two_objects)"
  let ?I = "snd (committed_pack two_objects)"
  let ?r = "purge ?P {1} [] ?I"
  have "\<not> isl ?r"
    by code_simp
  then have r: "?r = Inr (fst (projr ?r), fst (snd (projr ?r)), snd (snd (projr ?r)))"
    by (cases ?r) simp_all
  have h: "1 \<in> {1 :: ObjectHash}"
    by simp
  have l: "lookup (snd (snd (projr ?r))) 1 = lookup ?I 1"
    using purge_leaves_index_entries [OF r h] by (rule conjunct1)
  have "purge_lookup ?P {1} [] ?I 1 = Inr (lookup (snd (snd (projr ?r))) 1)"
    by (subst purge_lookup_def, subst r) (simp only: sum.case prod.case)
  then have "purge_lookup ?P {1} [] ?I 1 = Inr (lookup ?I 1)"
    by (simp only: l)
  then show ?thesis
    using h by (intro conjI)
qed

text \<open>
  C4 as stated fails: after two objects are committed to a pack and the first is purged,
  the index still returns the entry of the purged object.
\<close>

theorem purge_index_counterexample:
  "lookup (snd (committed_pack two_objects)) 1
     = Some \<lparr> info = \<lparr> hash = 1, kind = 3, flags = 0, payload_size = 1 \<rparr>,
              offset = 116, packed_size = 1, packfile = 0 \<rparr>
   \<and> purge_lookup (fst (committed_pack two_objects)) {1} [] (snd (committed_pack two_objects)) 1
     = Inr (Some \<lparr> info = \<lparr> hash = 1, kind = 3, flags = 0, payload_size = 1 \<rparr>,
                   offset = 116, packed_size = 1, packfile = 0 \<rparr>)"
  by code_simp


end
